theory Spec2Isabelle
  imports Complex_Main "HOL-Library.Option_ord"
begin

section \<open>Rally race simulation and settlement\<close>

text \<open>
  A shallow embedding of the race simulator and of the settlement script of
  \<^verbatim>\<open>streamlit_app.py\<close>, and of the ledger operations of
  \<^verbatim>\<open>snowflake_utils.py\<close>.

  Numbers: Python's \<^verbatim>\<open>float\<close> is modelled by \<^typ>\<open>real\<close>, so rounding, infinities
  and NaN are outside the model; Python's \<^verbatim>\<open>int\<close> is \<^typ>\<open>int\<close>. The one property that
  depends on rounding, overflow and underflow, that the simulated time is finite and
  strictly positive, is settled over a second embedding of the simulator, in binary64
  arithmetic.

  Randomness: the module-level generator of \<^verbatim>\<open>random\<close> is modelled by the sequence of
  values its successive calls to \<^verbatim>\<open>random.random()\<close> return. The sequence is threaded
  through the code in call order.
\<close>

subsection \<open>The random source\<close>

type_synonym rng = "nat \<Rightarrow> real"

text \<open>\<^verbatim>\<open>random.random()\<close>: the next value of the sequence, a number in \<open>[0, 1)\<close>.\<close>

definition random_random :: "rng \<Rightarrow> real \<times> rng" where
  "random_random g = (g 0, \<lambda>n. g (Suc n))"

text \<open>
  \<^verbatim>\<open>random.uniform(a, b)\<close>, which the standard library defines as
  \<^verbatim>\<open>a + (b - a) * self.random()\<close>.
\<close>

definition random_uniform :: "real \<Rightarrow> real \<Rightarrow> rng \<Rightarrow> real \<times> rng" where
  "random_uniform a b g = (case random_random g of (r, g') \<Rightarrow> (a + (b - a) * r, g'))"

text \<open>A generator all of whose values are results of \<^verbatim>\<open>random.random()\<close>.\<close>

definition unit_draws :: "rng \<Rightarrow> bool" where
  "unit_draws g \<longleftrightarrow> (\<forall>n. 0 \<le> g n \<and> g n < 1)"

subsection \<open>The race simulator\<close>

text \<open>A track segment is a triple (length in km, speed factor, handling factor).\<close>

type_synonym segment = "real \<times> real \<times> real"

text \<open>The first statement of \<^verbatim>\<open>simulate_time_minutes\<close>: the segments of a preset.\<close>

definition segments_of :: "real \<Rightarrow> string \<Rightarrow> segment list" where
  "segments_of distance_km preset =
     (if preset = ''Fast asphalt'' then [(distance_km, 1.05, 1.0)]
      else if preset = ''Gravel twisty''
        then [(distance_km * 0.6, 0.8, 0.9), (distance_km * 0.4, 0.7, 0.85)]
      else [(distance_km * 0.4, 0.95, 0.98),
            (distance_km * 0.3, 0.85, 0.92),
            (distance_km * 0.3, 0.75, 0.9)])"

definition handling_scale_of :: "int \<Rightarrow> real" where
  "handling_scale_of handling = 0.5 + real_of_int (max 50 (min 100 handling) - 50) / 100.0"

definition accel_scale_of :: "real \<Rightarrow> real" where
  "accel_scale_of accel_0_100_s = max 0.9 (min 1.05 (1.0 + (6.0 - accel_0_100_s) * 0.02))"

text \<open>The speed of one segment, after the floor, for the drawn variation.\<close>

definition segment_speed_of :: "real \<Rightarrow> real \<Rightarrow> real \<Rightarrow> segment \<Rightarrow> real \<Rightarrow> real" where
  "segment_speed_of base_speed handling_scale accel_scale seg random_variation =
     (case seg of (length_km, speed_factor, handling_factor) \<Rightarrow>
        max 60.0 (base_speed * handling_scale * accel_scale * speed_factor
                    * handling_factor * random_variation))"

text \<open>
  The loop over the segments, started with the minutes accumulated so far. The
  division is Python's float division, which raises on a zero divisor; the floor of
  the line before keeps the divisor at 60 or more (lemma \<open>segment_speed_floor\<close> below).
\<close>

fun segment_loop :: "real \<Rightarrow> real \<Rightarrow> real \<Rightarrow> segment list \<Rightarrow> real \<Rightarrow> rng \<Rightarrow> real \<times> rng" where
  "segment_loop base_speed handling_scale accel_scale [] minutes g = (minutes, g)"
| "segment_loop base_speed handling_scale accel_scale (seg # segs) minutes g =
     (case random_uniform 0.92 1.08 g of (random_variation, g') \<Rightarrow>
        let segment_speed =
              segment_speed_of base_speed handling_scale accel_scale seg random_variation;
            hours = fst seg / segment_speed
        in segment_loop base_speed handling_scale accel_scale segs (minutes + hours * 60.0) g')"

definition simulate_time_minutes ::
  "real \<Rightarrow> real \<Rightarrow> int \<Rightarrow> real \<Rightarrow> real \<Rightarrow> string \<Rightarrow> rng \<Rightarrow> (real \<times> bool) \<times> rng" where
  "simulate_time_minutes top_speed_kmh accel_0_100_s handling reliability distance_km preset g =
     (let segments = segments_of distance_km preset;
          base_speed = top_speed_kmh;
          handling_scale = handling_scale_of handling;
          accel_scale = accel_scale_of accel_0_100_s
      in case segment_loop base_speed handling_scale accel_scale segments 0.0 g of
           (minutes, g1) \<Rightarrow>
             let finish_probability = max 0.05 (min 0.99 reliability)
             in case random_random g1 of
                  (u, g2) \<Rightarrow>
                    let dnf = (u > finish_probability)
                    in if \<not> dnf
                       then (case random_uniform 0.98 1.05 g2 of
                               (jitter, g3) \<Rightarrow> ((minutes * jitter, dnf), g3))
                       else ((minutes, dnf), g2))"

subsection \<open>The ledger operations of the persistence layer\<close>

text \<open>
  The tables the operations touch, with the columns the statements name. The table
  definitions are in \<^verbatim>\<open>bootstrap.sql\<close>, which is not among the sources; columns a
  statement does not write (row identifiers, timestamps) are left out, and the
  identifier columns are taken to be non-null. A nullable \<^verbatim>\<open>BUDGET\<close> is an option, as
  the \<^verbatim>\<open>COALESCE\<close> of the update expects.
\<close>

record team_row =
  T_TEAM_ID :: int
  T_TEAM_NAME :: string
  T_MEMBERS :: string
  T_BUDGET :: "real option"

record transaction_row =
  X_TEAM_ID :: int
  X_RACE_ID :: "int option"
  X_AMOUNT :: real
  X_CURRENCY :: string
  X_REASON :: string

record race_row =
  R_RACE_ID :: int
  R_RACE_NAME :: string
  R_DISTANCE_KM :: real
  R_ENTRY_FEE :: real
  R_PRIZE_FIRST :: real
  R_PRIZE_SECOND :: real
  R_PRIZE_THIRD :: real

record race_result_row =
  RR_RACE_ID :: int
  RR_CAR_ID :: int
  RR_TEAM_ID :: int
  RR_FINISH_TIME_MINUTES :: "real option"
  RR_STATUS :: string
  RR_POSITION :: "int option"

text \<open>A row of the query of \<^verbatim>\<open>get_cars_with_teams_df\<close>: a car joined with its team.\<close>

record car_row =
  C_CAR_ID :: int
  C_CAR_NAME :: string
  C_TEAM_ID :: int
  C_TEAM_NAME :: string
  C_TOP_SPEED_KMH :: real
  C_ACCELERATION_0_100_S :: real
  C_HANDLING :: int
  C_RELIABILITY :: real
  C_WEIGHT_KG :: "int option"

record db =
  TEAMS :: "team_row list"
  TRANSACTIONS :: "transaction_row list"
  RACES :: "race_row list"
  RACE_RESULTS :: "race_result_row list"

definition coalesce :: "real option \<Rightarrow> real \<Rightarrow> real" where
  "coalesce v d = (case v of None \<Rightarrow> d | Some x \<Rightarrow> x)"

text \<open>
  \<^verbatim>\<open>record_transaction\<close>: the \<^verbatim>\<open>INSERT\<close> into the ledger, then the \<^verbatim>\<open>UPDATE\<close> of
  every team row whose identifier is \<open>team_id\<close>. Both statements are taken to succeed.
\<close>

definition record_transaction ::
  "db \<Rightarrow> int \<Rightarrow> int option \<Rightarrow> real \<Rightarrow> string \<Rightarrow> string \<Rightarrow> db" where
  "record_transaction conn team_id race_id amount reason currency =
     (let conn1 = conn\<lparr>TRANSACTIONS := TRANSACTIONS conn @
            [\<lparr>X_TEAM_ID = team_id, X_RACE_ID = race_id, X_AMOUNT = amount,
              X_CURRENCY = currency, X_REASON = reason\<rparr>]\<rparr>
      in conn1\<lparr>TEAMS := map (\<lambda>t. if T_TEAM_ID t = team_id
                                    then t\<lparr>T_BUDGET := Some (coalesce (T_BUDGET t) 0 + amount)\<rparr>
                                    else t) (TEAMS conn1)\<rparr>)"

text \<open>A sequence of calls of \<^verbatim>\<open>record_transaction\<close>, one per ledger row, in order.\<close>

definition record_all :: "transaction_row list \<Rightarrow> db \<Rightarrow> db" where
  "record_all xs conn =
     fold (\<lambda>x c. record_transaction c (X_TEAM_ID x) (X_RACE_ID x) (X_AMOUNT x)
                    (X_REASON x) (X_CURRENCY x)) xs conn"

fun max_list :: "int list \<Rightarrow> int option" where
  "max_list [] = None"
| "max_list (x # xs) = (case max_list xs of None \<Rightarrow> Some x | Some m \<Rightarrow> Some (max x m))"

text \<open>
  \<^verbatim>\<open>create_race\<close>: the \<^verbatim>\<open>INSERT\<close>, then \<^verbatim>\<open>SELECT MAX(RACE_ID)\<close>. The identifier of
  the new row is given by the store; it is the parameter \<open>assigned_id\<close>.
\<close>

definition create_race ::
  "db \<Rightarrow> int \<Rightarrow> string \<Rightarrow> real \<Rightarrow> real \<Rightarrow> real \<Rightarrow> real \<Rightarrow> real \<Rightarrow> db \<times> int" where
  "create_race conn assigned_id race_name distance_km entry_fee prize_first prize_second prize_third =
     (let conn1 = conn\<lparr>RACES := RACES conn @
            [\<lparr>R_RACE_ID = assigned_id, R_RACE_NAME = race_name, R_DISTANCE_KM = distance_km,
              R_ENTRY_FEE = entry_fee, R_PRIZE_FIRST = prize_first,
              R_PRIZE_SECOND = prize_second, R_PRIZE_THIRD = prize_third\<rparr>]\<rparr>
      in (conn1, case max_list (map R_RACE_ID (RACES conn1)) of None \<Rightarrow> 0 | Some m \<Rightarrow> m))"

definition insert_race_result ::
  "db \<Rightarrow> int \<Rightarrow> int \<Rightarrow> int \<Rightarrow> real option \<Rightarrow> string \<Rightarrow> int option \<Rightarrow> db" where
  "insert_race_result conn race_id car_id team_id finish_time_minutes status position =
     conn\<lparr>RACE_RESULTS := RACE_RESULTS conn @
       [\<lparr>RR_RACE_ID = race_id, RR_CAR_ID = car_id, RR_TEAM_ID = team_id,
         RR_FINISH_TIME_MINUTES = finish_time_minutes, RR_STATUS = status,
         RR_POSITION = position\<rparr>]\<rparr>"

subsection \<open>The settlement script\<close>

text \<open>
  The dictionaries of the list \<^verbatim>\<open>results\<close>. The key \<^verbatim>\<open>POSITION\<close> is absent until the
  ranking block; absent and \<^verbatim>\<open>None\<close> are both \<open>None\<close> here, as the script reads the
  key with \<^verbatim>\<open>r.get\<close> and then stores \<^verbatim>\<open>None\<close> for both.
\<close>

record result =
  CAR_ID :: int
  CAR_NAME :: string
  TEAM_ID :: int
  TEAM_NAME :: string
  TIME_MIN :: "real option"
  DNF :: bool
  POSITION :: "int option"

datatype error =
    NoCars        \<comment> \<open>\<^verbatim>\<open>st.stop()\<close> after the warning of the empty roster\<close>
  | ValueError    \<comment> \<open>\<^verbatim>\<open>min\<close> of an empty range\<close>
  | TypeError     \<comment> \<open>the sort comparing \<^verbatim>\<open>None\<close>\<close>

text \<open>Python's \<^verbatim>\<open>str\<close> of a non-negative integer, for the f-string of the prize reason.\<close>

fun str_nat :: "nat \<Rightarrow> string" where
  "str_nat n = (if n < 10 then [''0123456789'' ! n]
                else str_nat (n div 10) @ [''0123456789'' ! (n mod 10)])"

declare str_nat.simps [simp del]

text \<open>The loop that simulates every row of \<^verbatim>\<open>cars_df\<close> and appends its dictionary.\<close>

fun simulate_all :: "real \<Rightarrow> string \<Rightarrow> car_row list \<Rightarrow> rng \<Rightarrow> result list \<times> rng" where
  "simulate_all distance_km track_preset [] g = ([], g)"
| "simulate_all distance_km track_preset (row # rows) g =
     (case simulate_time_minutes (C_TOP_SPEED_KMH row) (C_ACCELERATION_0_100_S row)
             (C_HANDLING row) (C_RELIABILITY row) distance_km track_preset g of
        ((mins, dnf), g1) \<Rightarrow>
          (case simulate_all distance_km track_preset rows g1 of
             (results, g2) \<Rightarrow>
               (\<lparr>CAR_ID = C_CAR_ID row, CAR_NAME = C_CAR_NAME row, TEAM_ID = C_TEAM_ID row,
                 TEAM_NAME = C_TEAM_NAME row,
                 TIME_MIN = (if \<not> dnf then Some mins else None),
                 DNF = dnf, POSITION = None\<rparr> # results, g2)))"

text \<open>
  The key of the \<^verbatim>\<open>min\<close> of the rescue block, \<^verbatim>\<open>results[i]["TIME_MIN"] or float("inf")\<close>:
  \<open>None\<close> stands for infinity, which a missing time and the time \<open>0.0\<close> both give.
\<close>

definition time_key :: "result \<Rightarrow> real option" where
  "time_key r = (case TIME_MIN r of None \<Rightarrow> None
                 | Some t \<Rightarrow> if t = 0 then None else Some t)"

fun key_less :: "real option \<Rightarrow> real option \<Rightarrow> bool" where
  "key_less (Some a) (Some b) = (a < b)"
| "key_less (Some a) None = True"
| "key_less None _ = False"

text \<open>
  \<^verbatim>\<open>min(range(len(results)), key=...)\<close>: the first index is the candidate, and a later
  index replaces it only when its key is strictly smaller.
\<close>

definition min_index :: "result list \<Rightarrow> error + nat" where
  "min_index results =
     (case [0..<length results] of
        [] \<Rightarrow> Inl ValueError
      | i # rest \<Rightarrow>
          Inr (fold (\<lambda>j best. if key_less (time_key (results ! j)) (time_key (results ! best))
                               then j else best) rest i))"

text \<open>The all-DNF rescue block.\<close>

definition rescue :: "real \<Rightarrow> result list \<Rightarrow> rng \<Rightarrow> error + result list \<times> rng" where
  "rescue distance_km results g =
     (if list_all DNF results then
        (case min_index results of
           Inl e \<Rightarrow> Inl e
         | Inr best_idx \<Rightarrow>
             let results1 = results[best_idx := (results ! best_idx)\<lparr>DNF := False\<rparr>]
             in if TIME_MIN (results1 ! best_idx) = None
                then (case random_uniform (distance_km / 3) (distance_km / 2) g of
                        (t, g') \<Rightarrow>
                          Inr (results1[best_idx := (results1 ! best_idx)\<lparr>TIME_MIN := Some t\<rparr>], g'))
                else Inr (results1, g))
      else Inr (results, g))"

text \<open>
  The list \<^verbatim>\<open>finishers\<close> holds the same dictionaries as \<^verbatim>\<open>results\<close>, so it is modelled
  by the list of their indices in \<^verbatim>\<open>results\<close>. The sort is stable and ascending in
  \<^verbatim>\<open>TIME_MIN\<close>; it raises when it has to compare a \<^verbatim>\<open>None\<close>, which is whenever there
  are two or more finishers and one of them has no time.
\<close>

definition finisher_indices :: "result list \<Rightarrow> nat list" where
  "finisher_indices results = filter (\<lambda>i. \<not> DNF (results ! i)) [0..<length results]"

definition sort_finishers :: "result list \<Rightarrow> nat list \<Rightarrow> error + nat list" where
  "sort_finishers results idxs =
     (if 2 \<le> length idxs \<and> list_ex (\<lambda>i. TIME_MIN (results ! i) = None) idxs
      then Inl TypeError
      else Inr (sort_key (\<lambda>i. TIME_MIN (results ! i)) idxs))"

text \<open>\<^verbatim>\<open>for pos, r in enumerate(finishers, start=1): r["POSITION"] = pos\<close>\<close>

fun assign_positions :: "nat list \<Rightarrow> int \<Rightarrow> result list \<Rightarrow> result list" where
  "assign_positions [] pos results = results"
| "assign_positions (i # rest) pos results =
     assign_positions rest (pos + 1) (results[i := (results ! i)\<lparr>POSITION := Some pos\<rparr>])"

text \<open>Simulation, rescue and ranking: the part of the script that computes \<^verbatim>\<open>results\<close>
  and \<^verbatim>\<open>finishers\<close>.\<close>

definition run_race ::
  "real \<Rightarrow> string \<Rightarrow> car_row list \<Rightarrow> rng \<Rightarrow> error + (result list \<times> nat list) \<times> rng" where
  "run_race distance_km track_preset cars_df g =
     (case simulate_all distance_km track_preset cars_df g of
        (results, g1) \<Rightarrow>
          (case rescue distance_km results g1 of
             Inl e \<Rightarrow> Inl e
           | Inr (results1, g2) \<Rightarrow>
               (case sort_finishers results1 (finisher_indices results1) of
                  Inl e \<Rightarrow> Inl e
                | Inr finishers \<Rightarrow>
                    Inr ((assign_positions finishers 1 results1, finishers), g2))))"

text \<open>The entry-fee loop over \<^verbatim>\<open>participating_team_ids\<close>.\<close>

definition participating_team_ids :: "car_row list \<Rightarrow> int list" where
  "participating_team_ids cars_df = sort (remdups (map C_TEAM_ID cars_df))"

definition entry_fee_loop :: "int list \<Rightarrow> int \<Rightarrow> real \<Rightarrow> string \<Rightarrow> db \<Rightarrow> db" where
  "entry_fee_loop team_ids race_id entry_fee race_name conn =
     fold (\<lambda>team_id c. record_transaction c team_id (Some race_id) (- entry_fee)
                          (''Entry fee for '' @ race_name) ''USD'') team_ids conn"

text \<open>The prize loop over \<^verbatim>\<open>range(min(3, len(finishers)))\<close>.\<close>

definition prize_loop ::
  "real list \<Rightarrow> result list \<Rightarrow> nat list \<Rightarrow> int \<Rightarrow> string \<Rightarrow> db \<Rightarrow> db" where
  "prize_loop prizes results finishers race_id race_name conn =
     fold (\<lambda>idx c.
             let team_id = TEAM_ID (results ! (finishers ! idx));
                 amount = prizes ! idx
             in if amount > 0
                then record_transaction c team_id (Some race_id) amount
                       (''Prize for position '' @ str_nat (idx + 1) @ '' in '' @ race_name) ''USD''
                else c)
          [0..<min 3 (length finishers)] conn"

text \<open>The loop that writes one result row per dictionary of \<^verbatim>\<open>results\<close>.\<close>

definition result_row :: "int \<Rightarrow> result \<Rightarrow> race_result_row" where
  "result_row race_id r =
     \<lparr>RR_RACE_ID = race_id, RR_CAR_ID = CAR_ID r, RR_TEAM_ID = TEAM_ID r,
      RR_FINISH_TIME_MINUTES = TIME_MIN r,
      RR_STATUS = (if \<not> DNF r then ''FINISHED'' else ''DNF''),
      RR_POSITION = POSITION r\<rparr>"

definition insert_results_loop :: "int \<Rightarrow> result list \<Rightarrow> db \<Rightarrow> db" where
  "insert_results_loop race_id results conn =
     fold (\<lambda>r c. insert_race_result c race_id (CAR_ID r) (TEAM_ID r) (TIME_MIN r)
                    (if \<not> DNF r then ''FINISHED'' else ''DNF'') (POSITION r)) results conn"

text \<open>
  The handler of the button "Start race!". \<open>cars_df\<close> is the result of the read-only
  query \<^verbatim>\<open>get_cars_with_teams_df\<close>; the other arguments are the values of the input
  widgets, the identifier the store assigns to the new race, the random source and the
  store. The result is the list \<^verbatim>\<open>results\<close> (or the reason the script stopped), the
  store and the random source as the script leaves them.
\<close>

definition start_race ::
  "string \<Rightarrow> real \<Rightarrow> real \<Rightarrow> real \<Rightarrow> real \<Rightarrow> real \<Rightarrow> string \<Rightarrow> car_row list \<Rightarrow> int \<Rightarrow> rng \<Rightarrow> db
     \<Rightarrow> (error + result list) \<times> db \<times> rng" where
  "start_race race_name distance_km entry_fee prize_first prize_second prize_third
       track_preset cars_df assigned_id g conn =
     (if cars_df = [] then (Inl NoCars, conn, g)
      else
        (case create_race conn assigned_id (if race_name = [] then ''Rally'' else race_name)
                distance_km entry_fee prize_first prize_second prize_third of
           (conn1, race_id) \<Rightarrow>
             let conn2 = entry_fee_loop (participating_team_ids cars_df) race_id entry_fee
                           race_name conn1
             in (case run_race distance_km track_preset cars_df g of
                   Inl e \<Rightarrow> (Inl e, conn2, g)
                 | Inr ((results, finishers), g') \<Rightarrow>
                     let prizes = [prize_first, prize_second, prize_third];
                         conn3 = prize_loop prizes results finishers race_id race_name conn2;
                         conn4 = insert_results_loop race_id results conn3
                     in (Inr results, conn4, g'))))"

subsection \<open>The reference definitions of the specification\<close>

text \<open>
  The definitions of this subsection follow the words of the specification, not the
  code; the theorems compare the code with them.
\<close>

text \<open>The first \<open>n\<close> values of the random source.\<close>

fun take_draws :: "nat \<Rightarrow> rng \<Rightarrow> real list" where
  "take_draws 0 g = []"
| "take_draws (Suc n) g = g 0 # take_draws n (\<lambda>k. g (Suc k))"

text \<open>The values the \<open>n\<close> calls of \<^verbatim>\<open>random.uniform(0.92, 1.08)\<close> of a segment loop return.\<close>

definition segment_multipliers :: "rng \<Rightarrow> nat \<Rightarrow> real list" where
  "segment_multipliers g n = map (\<lambda>r. 0.92 + (1.08 - 0.92) * r) (take_draws n g)"

text \<open>Clamping to an interval.\<close>

definition spec_clamp :: "'a::linorder \<Rightarrow> 'a \<Rightarrow> 'a \<Rightarrow> 'a" where
  "spec_clamp lo hi x = (if x < lo then lo else if hi < x then hi else x)"

text \<open>Handling clamped to [50, 100] and mapped linearly onto [0.5, 1.0].\<close>

definition spec_handling_scale :: "int \<Rightarrow> real" where
  "spec_handling_scale handling =
     0.5 + (real_of_int (spec_clamp 50 100 handling) - 50) * ((1.0 - 0.5) / (100 - 50))"

text \<open>The acceleration scale \<open>1.0 + (6.0 - accel) * 0.02\<close>, clamped to [0.90, 1.05].\<close>

definition spec_accel_scale :: "real \<Rightarrow> real" where
  "spec_accel_scale accel = spec_clamp 0.90 1.05 (1.0 + (6.0 - accel) * 0.02)"

text \<open>The effective speed of a segment, floored at 60 km/h.\<close>

definition spec_effective_speed :: "real \<Rightarrow> real \<Rightarrow> int \<Rightarrow> segment \<Rightarrow> real \<Rightarrow> real" where
  "spec_effective_speed top_speed accel handling seg random_multiplier =
     (let v = top_speed * spec_handling_scale handling * spec_accel_scale accel
                * fst (snd seg) * snd (snd seg) * random_multiplier
      in if v < 60.0 then 60.0 else v)"

text \<open>Length over speed in hours, summed over the segments, converted to minutes.\<close>

definition spec_time_minutes :: "real \<Rightarrow> real \<Rightarrow> int \<Rightarrow> segment list \<Rightarrow> real list \<Rightarrow> real" where
  "spec_time_minutes top_speed accel handling segs ms =
     (\<Sum>(seg, m) \<leftarrow> zip segs ms. fst seg / spec_effective_speed top_speed accel handling seg m) * 60"

text \<open>The presets as lists of (distance fraction, speed factor, handling factor).\<close>

definition spec_preset :: "string \<Rightarrow> (real \<times> real \<times> real) list" where
  "spec_preset name =
     (if name = ''Fast asphalt'' then [(1, 1.05, 1.0)]
      else if name = ''Gravel twisty'' then [(0.6, 0.8, 0.9), (0.4, 0.7, 0.85)]
      else [(0.4, 0.95, 0.98), (0.3, 0.85, 0.92), (0.3, 0.75, 0.90)])"

subsection \<open>Ledger rows and race results of the specification\<close>

text \<open>The ledger rows of the entry fees: one debit per participating team.\<close>

definition entry_fee_transactions :: "int list \<Rightarrow> int \<Rightarrow> real \<Rightarrow> string \<Rightarrow> transaction_row list" where
  "entry_fee_transactions team_ids race_id entry_fee race_name =
     map (\<lambda>team_id. \<lparr>X_TEAM_ID = team_id, X_RACE_ID = Some race_id, X_AMOUNT = - entry_fee,
                      X_CURRENCY = ''USD'', X_REASON = ''Entry fee for '' @ race_name\<rparr>) team_ids"

text \<open>
  The ledger rows of the prizes: for the ranks 1 to min(3, number of finishers) whose
  prize is positive, a credit to the team of the finisher of that rank. A rank is one
  more than the index into \<open>finishers\<close>.
\<close>

definition prize_ranks :: "real list \<Rightarrow> nat \<Rightarrow> nat list" where
  "prize_ranks prizes finisher_count =
     filter (\<lambda>idx. prizes ! idx > 0) [0..<min 3 finisher_count]"

definition prize_transactions ::
  "real list \<Rightarrow> result list \<Rightarrow> nat list \<Rightarrow> int \<Rightarrow> string \<Rightarrow> transaction_row list" where
  "prize_transactions prizes results finishers race_id race_name =
     map (\<lambda>idx. \<lparr>X_TEAM_ID = TEAM_ID (results ! (finishers ! idx)), X_RACE_ID = Some race_id,
                  X_AMOUNT = prizes ! idx, X_CURRENCY = ''USD'',
                  X_REASON = ''Prize for position '' @ str_nat (idx + 1) @ '' in '' @ race_name\<rparr>)
         (prize_ranks prizes (length finishers))"

text \<open>The sum of the signed amounts of the ledger rows of one team.\<close>

definition team_total :: "int \<Rightarrow> transaction_row list \<Rightarrow> real" where
  "team_total team_id xs = sum_list (map X_AMOUNT (filter (\<lambda>x. X_TEAM_ID x = team_id) xs))"

text \<open>
  A dictionary before ranking is in order when it has a time exactly if it is not DNF
  and has no position yet.
\<close>

definition unranked_ok :: "result \<Rightarrow> bool" where
  "unranked_ok r \<longleftrightarrow> (TIME_MIN r = None \<longleftrightarrow> DNF r) \<and> POSITION r = None"

text \<open>The dictionary the rescue block leaves at the chosen index.\<close>

definition forced_finish :: "real \<Rightarrow> rng \<Rightarrow> result \<Rightarrow> result" where
  "forced_finish distance_km g r =
     r\<lparr>DNF := False,
       TIME_MIN := Some (case TIME_MIN r of
                           None \<Rightarrow> distance_km / 3 + (distance_km / 2 - distance_km / 3) * g 0
                         | Some t \<Rightarrow> t)\<rparr>"

text \<open>
  The example scenario of the specification: two cars of two teams, and a store that
  holds the two teams, the second with a null budget.
\<close>

definition example_cars :: "car_row list" where
  "example_cars =
     [\<lparr>C_CAR_ID = 1, C_CAR_NAME = ''Car A'', C_TEAM_ID = 1, C_TEAM_NAME = ''Falcon Motorsport'',
       C_TOP_SPEED_KMH = 220, C_ACCELERATION_0_100_S = 5.2, C_HANDLING = 85,
       C_RELIABILITY = 0.92, C_WEIGHT_KG = Some 1200\<rparr>,
      \<lparr>C_CAR_ID = 2, C_CAR_NAME = ''Car B'', C_TEAM_ID = 2, C_TEAM_NAME = ''Thunder Racing'',
       C_TOP_SPEED_KMH = 230, C_ACCELERATION_0_100_S = 4.9, C_HANDLING = 78,
       C_RELIABILITY = 0.85, C_WEIGHT_KG = Some 1180\<rparr>]"

definition example_db :: db where
  "example_db =
     \<lparr>TEAMS = [\<lparr>T_TEAM_ID = 1, T_TEAM_NAME = ''Falcon Motorsport'', T_MEMBERS = ''Alice,Bob'',
                 T_BUDGET = Some 10000\<rparr>,
                \<lparr>T_TEAM_ID = 2, T_TEAM_NAME = ''Thunder Racing'', T_MEMBERS = ''Carol,Dan'',
                 T_BUDGET = None\<rparr>],
      TRANSACTIONS = [], RACES = [], RACE_RESULTS = []\<rparr>"

subsection \<open>The simulator in binary64 arithmetic\<close>

text \<open>
  A second embedding of \<^verbatim>\<open>simulate_time_minutes\<close>, in which every arithmetic operation
  rounds as Python's \<^verbatim>\<open>float\<close> (IEEE 754 binary64, round to nearest, ties to even)
  does, with overflow to infinity and underflow to zero. A float is a finite real, an
  infinity or a NaN; the sign of a zero is not modelled, which no operation of the
  simulator can observe.
\<close>

datatype f64 = Fin real | PInf | NInf | NaN

text \<open>
  Rounding of a non-negative real: the result is the nearest multiple of the unit in
  the last place of the binade of \<open>x\<close> (the unit of the subnormal numbers below
  \<open>2 powr - 1022\<close>), the even multiple at a tie, and infinity when that is
  \<open>2 powr 1024\<close> or more.
\<close>

definition rnd_pos :: "real \<Rightarrow> f64" where
  "rnd_pos x =
     (if x = 0 then Fin 0
      else
        let e = max \<lfloor>log 2 x\<rfloor> (- 1022);
            u = 2 powr (real_of_int e - 52);
            q = x / u;
            n = \<lfloor>q\<rfloor>;
            m = (if q - real_of_int n < 1 / 2 then n
                 else if 1 / 2 < q - real_of_int n then n + 1
                 else if even n then n else n + 1);
            y = real_of_int m * u
        in if 2 powr 1024 \<le> y then PInf else Fin y)"

fun fneg :: "f64 \<Rightarrow> f64" where
  "fneg (Fin x) = Fin (- x)"
| "fneg PInf = NInf"
| "fneg NInf = PInf"
| "fneg NaN = NaN"

definition rnd :: "real \<Rightarrow> f64" where
  "rnd x = (if x < 0 then fneg (rnd_pos (- x)) else rnd_pos x)"

text \<open>The sign of a float that is not a NaN.\<close>

fun fsgn :: "f64 \<Rightarrow> int" where
  "fsgn (Fin x) = (if x < 0 then - 1 else if x = 0 then 0 else 1)"
| "fsgn PInf = 1"
| "fsgn NInf = - 1"
| "fsgn NaN = 0"

fun fadd :: "f64 \<Rightarrow> f64 \<Rightarrow> f64" where
  "fadd (Fin a) (Fin b) = rnd (a + b)"
| "fadd NaN _ = NaN"
| "fadd _ NaN = NaN"
| "fadd PInf NInf = NaN"
| "fadd NInf PInf = NaN"
| "fadd PInf _ = PInf"
| "fadd _ PInf = PInf"
| "fadd NInf _ = NInf"
| "fadd _ NInf = NInf"

definition fsub :: "f64 \<Rightarrow> f64 \<Rightarrow> f64" where
  "fsub a b = fadd a (fneg b)"

fun fmul :: "f64 \<Rightarrow> f64 \<Rightarrow> f64" where
  "fmul (Fin a) (Fin b) = rnd (a * b)"
| "fmul NaN _ = NaN"
| "fmul _ NaN = NaN"
| "fmul a b = (if fsgn a * fsgn b = 0 then NaN
               else if 0 < fsgn a * fsgn b then PInf else NInf)"

text \<open>
  Python's \<^verbatim>\<open>/\<close> on floats raises \<^verbatim>\<open>ZeroDivisionError\<close> for a zero divisor, whatever the
  dividend; the error is the result \<open>None\<close>.
\<close>

fun fdiv :: "f64 \<Rightarrow> f64 \<Rightarrow> f64 option" where
  "fdiv a (Fin b) =
     (if b = 0 then None
      else (case a of
              Fin x \<Rightarrow> Some (rnd (x / b))
            | NaN \<Rightarrow> Some NaN
            | _ \<Rightarrow> Some (if 0 < fsgn a * fsgn (Fin b) then PInf else NInf)))"
| "fdiv NaN _ = Some NaN"
| "fdiv _ NaN = Some NaN"
| "fdiv (Fin x) _ = Some (Fin 0)"
| "fdiv _ _ = Some NaN"

text \<open>The comparison \<^verbatim>\<open>a > b\<close>, false when either side is a NaN.\<close>

fun fgt :: "f64 \<Rightarrow> f64 \<Rightarrow> bool" where
  "fgt NaN _ = False"
| "fgt _ NaN = False"
| "fgt (Fin a) (Fin b) = (b < a)"
| "fgt PInf PInf = False"
| "fgt PInf _ = True"
| "fgt _ PInf = False"
| "fgt NInf _ = False"
| "fgt _ NInf = True"

text \<open>
  Python's \<^verbatim>\<open>max(a, b)\<close> and \<^verbatim>\<open>min(a, b)\<close>: the first argument, unless the second is
  greater (smaller).
\<close>

definition py_max :: "f64 \<Rightarrow> f64 \<Rightarrow> f64" where
  "py_max a b = (if fgt b a then b else a)"

definition py_min :: "f64 \<Rightarrow> f64 \<Rightarrow> f64" where
  "py_min a b = (if fgt a b then b else a)"

text \<open>A decimal literal of the source is the float nearest to it.\<close>

definition segments_of_f64 :: "f64 \<Rightarrow> string \<Rightarrow> (f64 \<times> f64 \<times> f64) list" where
  "segments_of_f64 distance_km preset =
     (if preset = ''Fast asphalt'' then [(distance_km, rnd 1.05, rnd 1.0)]
      else if preset = ''Gravel twisty''
        then [(fmul distance_km (rnd 0.6), rnd 0.8, rnd 0.9),
              (fmul distance_km (rnd 0.4), rnd 0.7, rnd 0.85)]
      else [(fmul distance_km (rnd 0.4), rnd 0.95, rnd 0.98),
            (fmul distance_km (rnd 0.3), rnd 0.85, rnd 0.92),
            (fmul distance_km (rnd 0.3), rnd 0.75, rnd 0.9)])"

definition handling_scale_f64 :: "int \<Rightarrow> f64 option" where
  "handling_scale_f64 handling =
     (case fdiv (rnd (real_of_int (max 50 (min 100 handling) - 50))) (rnd 100.0) of
        None \<Rightarrow> None
      | Some q \<Rightarrow> Some (fadd (rnd 0.5) q))"

definition accel_scale_f64 :: "f64 \<Rightarrow> f64" where
  "accel_scale_f64 accel_0_100_s =
     py_max (rnd 0.9)
       (py_min (rnd 1.05) (fadd (rnd 1.0) (fmul (fsub (rnd 6.0) accel_0_100_s) (rnd 0.02))))"

definition uniform_f64 :: "f64 \<Rightarrow> f64 \<Rightarrow> rng \<Rightarrow> f64 \<times> rng" where
  "uniform_f64 a b g = (case random_random g of (r, g') \<Rightarrow> (fadd a (fmul (fsub b a) (Fin r)), g'))"

definition segment_speed_f64 :: "f64 \<Rightarrow> f64 \<Rightarrow> f64 \<Rightarrow> f64 \<times> f64 \<times> f64 \<Rightarrow> f64 \<Rightarrow> f64" where
  "segment_speed_f64 base_speed handling_scale accel_scale seg random_variation =
     (case seg of (length_km, speed_factor, handling_factor) \<Rightarrow>
        py_max (rnd 60.0)
          (fmul (fmul (fmul (fmul (fmul base_speed handling_scale) accel_scale) speed_factor)
                   handling_factor) random_variation))"

fun segment_loop_f64 ::
  "f64 \<Rightarrow> f64 \<Rightarrow> f64 \<Rightarrow> (f64 \<times> f64 \<times> f64) list \<Rightarrow> f64 \<Rightarrow> rng \<Rightarrow> (f64 \<times> rng) option" where
  "segment_loop_f64 base_speed handling_scale accel_scale [] minutes g = Some (minutes, g)"
| "segment_loop_f64 base_speed handling_scale accel_scale (seg # segs) minutes g =
     (case uniform_f64 (rnd 0.92) (rnd 1.08) g of (random_variation, g') \<Rightarrow>
        let segment_speed =
              segment_speed_f64 base_speed handling_scale accel_scale seg random_variation
        in (case fdiv (fst seg) segment_speed of
              None \<Rightarrow> None
            | Some hours \<Rightarrow>
                segment_loop_f64 base_speed handling_scale accel_scale segs
                  (fadd minutes (fmul hours (rnd 60.0))) g'))"

definition simulate_time_minutes_f64 ::
  "f64 \<Rightarrow> f64 \<Rightarrow> int \<Rightarrow> f64 \<Rightarrow> f64 \<Rightarrow> string \<Rightarrow> rng \<Rightarrow> ((f64 \<times> bool) \<times> rng) option" where
  "simulate_time_minutes_f64 top_speed_kmh accel_0_100_s handling reliability distance_km preset g =
     (let segments = segments_of_f64 distance_km preset;
          base_speed = top_speed_kmh
      in case handling_scale_f64 handling of
           None \<Rightarrow> None
         | Some handling_scale \<Rightarrow>
             let accel_scale = accel_scale_f64 accel_0_100_s
             in (case segment_loop_f64 base_speed handling_scale accel_scale segments (rnd 0.0) g of
                   None \<Rightarrow> None
                 | Some (minutes, g1) \<Rightarrow>
                     let finish_probability = py_max (rnd 0.05) (py_min (rnd 0.99) reliability)
                     in (case random_random g1 of
                           (u, g2) \<Rightarrow>
                             let dnf = fgt (Fin u) finish_probability
                             in if \<not> dnf
                                then (case uniform_f64 (rnd 0.98) (rnd 1.05) g2 of
                                        (jitter, g3) \<Rightarrow> Some ((fmul minutes jitter, dnf), g3))
                                else Some ((minutes, dnf), g2))))"

text \<open>The draws of the counterexample: every call of \<^verbatim>\<open>random.random()\<close> returns 0.75.\<close>

definition draws_075 :: rng where
  "draws_075 = (\<lambda>n. 3 / 4)"

text \<open>
  A segment of a track of 10 to 1000 km: a finite length between 2 and 1001 and finite,
  positive factors of at most 1.06.
\<close>

definition bounded_segment :: "f64 \<times> f64 \<times> f64 \<Rightarrow> bool" where
  "bounded_segment seg \<longleftrightarrow>
     (\<exists>l s h. seg = (Fin l, Fin s, Fin h) \<and> 2 \<le> l \<and> l \<le> 1001 \<and>
               0 < s \<and> s \<le> 106 / 100 \<and> 0 < h \<and> h \<le> 106 / 100)"

section \<open>Properties of the simulator\<close>

lemma handling_scale_spec: "handling_scale_of h = spec_handling_scale h"
  by (simp add: handling_scale_of_def spec_handling_scale_def spec_clamp_def max_def min_def)

lemma accel_scale_spec: "accel_scale_of a = spec_accel_scale a"
  unfolding accel_scale_of_def spec_accel_scale_def spec_clamp_def max_def min_def
  by (auto simp: field_simps)

lemma segment_speed_spec:
  "segment_speed_of tsp (handling_scale_of h) (accel_scale_of a) seg m
     = spec_effective_speed tsp a h seg m"
  by (cases seg)
     (simp add: segment_speed_of_def spec_effective_speed_def handling_scale_spec
        accel_scale_spec max_def Let_def)

lemma segment_loop_sum:
  "segment_loop tsp (handling_scale_of h) (accel_scale_of a) segs minutes g =
     (minutes + (\<Sum>(seg, m) \<leftarrow> zip segs (map (\<lambda>r. 0.92 + (1.08 - 0.92) * r) (take_draws (length segs) g)).
                   fst seg / spec_effective_speed tsp a h seg m) * 60,
      \<lambda>n. g (n + length segs))"
proof (induction segs arbitrary: minutes g)
  case Nil
  show ?case by simp
next
  case (Cons seg segs)
  show ?case
    by (simp add: random_uniform_def random_random_def Cons.IH segment_speed_spec
        algebra_simps Let_def)
qed

lemma take_draws_nth: "i < n \<Longrightarrow> take_draws n g ! i = g i"
proof (induction n arbitrary: g i)
  case 0 then show ?case by simp
next
  case (Suc n) then show ?case by (cases i) simp_all
qed

lemma length_take_draws [simp]: "length (take_draws n g) = n"
  by (induction n arbitrary: g) simp_all

lemma take_draws_unit:
  "unit_draws g \<Longrightarrow> r \<in> set (take_draws n g) \<Longrightarrow> 0 \<le> r \<and> r < 1"
  by (auto simp: in_set_conv_nth take_draws_nth unit_draws_def)

lemma segment_multipliers_range:
  assumes "unit_draws g" and "m \<in> set (segment_multipliers g n)"
  shows "0.92 \<le> m \<and> m \<le> 1.08"
proof -
  from assms(2) obtain r where r: "r \<in> set (take_draws n g)" and m: "m = 0.92 + (1.08 - 0.92) * r"
    by (auto simp: segment_multipliers_def)
  from take_draws_unit [OF assms(1) r] have "0 \<le> r" "r < 1" by simp_all
  with m show ?thesis by simp
qed

lemma segment_loop_reference:
  "segment_loop tsp (handling_scale_of h) (accel_scale_of a) segs 0 g =
     (spec_time_minutes tsp a h segs (segment_multipliers g (length segs)),
      \<lambda>n. g (n + length segs))"
  by (simp add: segment_loop_sum spec_time_minutes_def segment_multipliers_def)

lemma simulate_time_minutes_eq:
  "simulate_time_minutes tsp a h rel d p g =
     (let n = length (segments_of d p);
          T = spec_time_minutes tsp a h (segments_of d p) (segment_multipliers g n)
      in if g n > max 0.05 (min 0.99 rel)
         then ((T, True), \<lambda>k. g (k + (n + 1)))
         else ((T * (0.98 + (1.05 - 0.98) * g (n + 1)), False), \<lambda>k. g (k + (n + 2))))"
  by (simp add: simulate_time_minutes_def segment_loop_reference random_random_def
      random_uniform_def Let_def add.commute add.left_commute)

lemma segment_speed_floor: "60 \<le> segment_speed_of b hs as seg m"
  by (cases seg) (simp add: segment_speed_of_def)

lemma segment_loop_Cons:
  "segment_loop b hs as (seg # segs) minutes g =
     segment_loop b hs as segs
       (minutes + fst seg / segment_speed_of b hs as seg (0.92 + (1.08 - 0.92) * g 0) * 60)
       (\<lambda>n. g (Suc n))"
  by (simp add: random_uniform_def random_random_def Let_def)

lemma segment_loop_mono:
  "\<forall>seg \<in> set segs. 0 \<le> fst seg \<Longrightarrow> minutes \<le> fst (segment_loop b hs as segs minutes g)"
proof (induction segs arbitrary: minutes g)
  case Nil
  show ?case by simp
next
  case (Cons seg segs)
  have s: "0 < segment_speed_of b hs as seg m" for m
    using segment_speed_floor [of b hs as seg m] by linarith
  have q: "0 \<le> fst seg / segment_speed_of b hs as seg m * 60" for m
    using Cons.prems s [of m] by simp
  have "minutes \<le> minutes + fst seg / segment_speed_of b hs as seg m * 60" for m
    using q [of m] by linarith
  moreover have "minutes' \<le> fst (segment_loop b hs as segs minutes' g')" for minutes' g'
    using Cons.IH Cons.prems by simp
  ultimately show ?case
    unfolding segment_loop_Cons by (rule order_trans)
qed

lemma segment_loop_pos:
  assumes "\<forall>seg \<in> set segs. 0 < fst seg" and "segs \<noteq> []" and "0 \<le> minutes"
  shows "0 < fst (segment_loop b hs as segs minutes g)"
proof (cases segs)
  case Nil
  with assms(2) show ?thesis by simp
next
  case (Cons seg rest)
  have s: "0 < segment_speed_of b hs as seg m" for m
    using segment_speed_floor [of b hs as seg m] by linarith
  have "0 < fst seg" using assms(1) Cons by simp
  then have q: "0 < fst seg / segment_speed_of b hs as seg m * 60" for m
    using s [of m] by simp
  have p: "0 < minutes + fst seg / segment_speed_of b hs as seg m * 60" for m
    using assms(3) q [of m] by linarith
  have "\<forall>seg \<in> set rest. 0 \<le> fst seg"
    using assms(1) Cons by (auto intro: less_imp_le)
  then have "minutes' \<le> fst (segment_loop b hs as rest minutes' g')" for minutes' g'
    by (rule segment_loop_mono)
  with p show ?thesis
    unfolding Cons segment_loop_Cons by (rule less_le_trans)
qed

lemma segments_of_lengths_pos:
  "0 < d \<Longrightarrow> seg \<in> set (segments_of d p) \<Longrightarrow> 0 < fst seg"
  by (cases "p = ''Fast asphalt''"; cases "p = ''Gravel twisty''") (auto simp: segments_of_def)

lemma segments_of_nonempty: "segments_of d p \<noteq> []"
  by (simp add: segments_of_def)

lemma segments_of_preset:
  "segments_of d p = map (\<lambda>(f, sf, hf). (d * f, sf, hf)) (spec_preset p)"
  by (simp add: segments_of_def spec_preset_def)

lemma segment_loop_rng:
  "snd (segment_loop b hs as segs minutes g) = (\<lambda>k. g (k + length segs))"
proof (induction segs arbitrary: minutes g)
  case Nil
  show ?case by simp
next
  case (Cons seg segs)
  show ?case unfolding segment_loop_Cons Cons.IH by simp
qed

lemma simulate_time_minutes_unfold:
  "simulate_time_minutes tsp a h rel d p g =
     (let n = length (segments_of d p);
          T = fst (segment_loop tsp (handling_scale_of h) (accel_scale_of a) (segments_of d p) 0 g)
      in if g n > max 0.05 (min 0.99 rel)
         then ((T, True), \<lambda>k. g (k + (n + 1)))
         else ((T * (0.98 + (1.05 - 0.98) * g (n + 1)), False), \<lambda>k. g (k + (n + 2))))"
proof -
  obtain T g1 where l: "segment_loop tsp (handling_scale_of h) (accel_scale_of a) (segments_of d p) 0 g = (T, g1)"
    by (cases "segment_loop tsp (handling_scale_of h) (accel_scale_of a) (segments_of d p) 0 g")
  have g1: "g1 = (\<lambda>k. g (k + length (segments_of d p)))"
    using segment_loop_rng [of tsp "handling_scale_of h" "accel_scale_of a" "segments_of d p" 0 g] l
    by simp
  show ?thesis
    by (simp add: simulate_time_minutes_def l g1 random_random_def random_uniform_def Let_def
        add.commute add.left_commute)
qed

lemma spec_clamp_eq: "max lo (min hi x) = spec_clamp lo hi x" if "lo \<le> hi" for lo :: "'a::linorder"
  using that by (auto simp: spec_clamp_def max_def min_def)

lemma jitter_range:
  assumes "0 \<le> r" and "r < 1"
  shows "0.98 \<le> 0.98 + (1.05 - 0.98) * r \<and> 0.98 + (1.05 - 0.98) * r \<le> (1.05::real)"
  using assms by simp

text \<open>
  C7. The segments of the three presets are the lists the specification gives: the preset
  "Fast asphalt" is one segment of the whole distance with factors (1.05, 1.0), "Gravel
  twisty" is 60% at (0.8, 0.9) then 40% at (0.7, 0.85), and every other preset name gives
  the mixed profile, 40% at (0.95, 0.98), 30% at (0.85, 0.92), 30% at (0.75, 0.90). For
  every preset name the fractions sum to 1 and the segment lengths sum to the distance.
\<close>

theorem preset_segments:
  "segments_of d ''Fast asphalt'' = [(d, 1.05, 1.0)] \<and>
   segments_of d ''Gravel twisty'' = [(d * 0.6, 0.8, 0.9), (d * 0.4, 0.7, 0.85)] \<and>
   (p \<noteq> ''Fast asphalt'' \<and> p \<noteq> ''Gravel twisty'' \<longrightarrow>
      segments_of d p = [(d * 0.4, 0.95, 0.98), (d * 0.3, 0.85, 0.92), (d * 0.3, 0.75, 0.9)]) \<and>
   segments_of d p = map (\<lambda>(f, sf, hf). (d * f, sf, hf)) (spec_preset p) \<and>
   sum_list (map fst (spec_preset p)) = 1 \<and>
   sum_list (map fst (segments_of d p)) = d"
  by (simp add: segments_of_def spec_preset_def)

theorem preset_segments_witness:
  "''Mixed (default)'' \<noteq> ''Fast asphalt'' \<and> ''Mixed (default)'' \<noteq> ''Gravel twisty'' \<and>
   segments_of 100 ''Mixed (default)'' = [(40, 0.95, 0.98), (30, 0.85, 0.92), (30, 0.75, 0.9)] \<and>
   sum_list (map fst (segments_of 100 ''Mixed (default)'')) = 100"
  using preset_segments [of 100 "''Mixed (default)''"] by simp

text \<open>
  C3. For every car and track, the minutes accumulated by the segment loop are the
  reference value of the specification, computed from the multipliers the loop draws
  (one per segment, each in [0.92, 1.08]): handling clamped to [50, 100] and mapped
  linearly onto [0.5, 1.0], the acceleration scale 1.0 + (6.0 - accel) * 0.02 clamped to
  [0.90, 1.05], segment speeds floored at 60, and the segment hours summed and converted
  to minutes. The time returned is this value for a car that does not finish, and this
  value times the finish jitter otherwise.
\<close>

theorem simulate_time_reference:
  assumes "unit_draws g"
  shows "let segs = segments_of d p;
             ms = segment_multipliers g (length segs);
             T = spec_time_minutes tsp a h segs ms;
             out = simulate_time_minutes tsp a h rel d p g
         in length ms = length segs \<and>
            (\<forall>m \<in> set ms. 0.92 \<le> m \<and> m \<le> 1.08) \<and>
            handling_scale_of h = spec_handling_scale h \<and>
            0.5 \<le> spec_handling_scale h \<and> spec_handling_scale h \<le> 1.0 \<and>
            accel_scale_of a = spec_accel_scale a \<and>
            0.90 \<le> spec_accel_scale a \<and> spec_accel_scale a \<le> 1.05 \<and>
            fst (segment_loop tsp (handling_scale_of h) (accel_scale_of a) segs 0 g) = T \<and>
            fst (fst out) =
              (if snd (fst out) then T else T * (0.98 + (1.05 - 0.98) * g (length segs + 1)))"
proof -
  have r: "\<forall>m \<in> set (segment_multipliers g (length (segments_of d p))). 0.92 \<le> m \<and> m \<le> 1.08"
    using segment_multipliers_range [OF assms] by blast
  have hs: "0.5 \<le> spec_handling_scale h \<and> spec_handling_scale h \<le> 1.0"
  proof -
    have "50 \<le> spec_clamp 50 100 h \<and> spec_clamp 50 100 h \<le> 100"
      by (simp add: spec_clamp_def)
    then have "50 \<le> real_of_int (spec_clamp 50 100 h)" "real_of_int (spec_clamp 50 100 h) \<le> 100"
      by linarith+
    then show ?thesis by (simp add: spec_handling_scale_def field_simps)
  qed
  have ac: "0.90 \<le> spec_accel_scale a \<and> spec_accel_scale a \<le> 1.05"
    by (simp add: spec_accel_scale_def spec_clamp_def)
  have len: "length (segment_multipliers g (length (segments_of d p))) = length (segments_of d p)"
    by (simp add: segment_multipliers_def)
  have out: "fst (fst (simulate_time_minutes tsp a h rel d p g)) =
      (if snd (fst (simulate_time_minutes tsp a h rel d p g))
       then spec_time_minutes tsp a h (segments_of d p)
              (segment_multipliers g (length (segments_of d p)))
       else spec_time_minutes tsp a h (segments_of d p)
              (segment_multipliers g (length (segments_of d p)))
            * (0.98 + (1.05 - 0.98) * g (length (segments_of d p) + 1)))"
    by (simp add: simulate_time_minutes_eq Let_def)
  show ?thesis
    unfolding Let_def
    using r hs ac len out handling_scale_spec [of h] accel_scale_spec [of a]
      segment_loop_reference [of tsp h a "segments_of d p" g]
    by simp
qed

theorem simulate_time_reference_witness:
  "unit_draws (\<lambda>_. 1 / 2) \<and>
   fst (segment_loop 220 (handling_scale_of 85) (accel_scale_of 5.2)
          (segments_of 100 ''Fast asphalt'') 0 (\<lambda>_. 1 / 2))
     = spec_time_minutes 220 5.2 85 (segments_of 100 ''Fast asphalt'') [1]"
proof -
  have u: "unit_draws (\<lambda>_. 1 / 2)" by (simp add: unit_draws_def)
  have m: "segment_multipliers (\<lambda>_. 1 / 2) (length (segments_of 100 ''Fast asphalt'')) = [1]"
    by (simp add: segment_multipliers_def segments_of_def)
  have "fst (segment_loop 220 (handling_scale_of 85) (accel_scale_of 5.2)
          (segments_of 100 ''Fast asphalt'') 0 (\<lambda>_. 1 / 2))
     = spec_time_minutes 220 5.2 85 (segments_of 100 ''Fast asphalt'') [1]"
    using simulate_time_reference [OF u, of 100 "''Fast asphalt''" 220 "5.2" 85 "0.92"]
    unfolding Let_def m by (elim conjE)
  with u show ?thesis by (rule conjI)
qed

text \<open>
  C6. The DNF decision is one trial: the car is marked DNF exactly when the draw that
  follows the segment draws exceeds the reliability clamped to [0.05, 0.99] (so a
  reliability of 1.0 gives the finish probability 0.99). A DNF car keeps the accumulated
  minutes and consumes no further draw; a finishing car has its minutes multiplied by
  one jitter in [0.98, 1.05], which consumes exactly one further draw.
\<close>

theorem dnf_single_trial:
  assumes "unit_draws g"
  shows "let n = length (segments_of d p);
             fp = spec_clamp 0.05 0.99 rel;
             T = fst (segment_loop tsp (handling_scale_of h) (accel_scale_of a)
                        (segments_of d p) 0 g);
             jitter = 0.98 + (1.05 - 0.98) * g (n + 1);
             out = simulate_time_minutes tsp a h rel d p g
         in 0.05 \<le> fp \<and> fp \<le> 0.99 \<and> (rel = 1.0 \<longrightarrow> fp = 0.99) \<and>
            snd (fst out) = (g n > fp) \<and>
            (snd (fst out) \<longrightarrow> fst (fst out) = T \<and> snd out = (\<lambda>k. g (k + (n + 1)))) \<and>
            (\<not> snd (fst out) \<longrightarrow>
               fst (fst out) = T * jitter \<and> 0.98 \<le> jitter \<and> jitter \<le> 1.05 \<and>
               snd out = (\<lambda>k. g (k + (n + 2))))"
proof -
  have c: "max 0.05 (min 0.99 rel) = spec_clamp 0.05 0.99 rel"
    by (rule spec_clamp_eq) simp
  have fp: "0.05 \<le> spec_clamp 0.05 0.99 rel \<and> spec_clamp 0.05 0.99 rel \<le> 0.99 \<and>
            (rel = 1.0 \<longrightarrow> spec_clamp 0.05 0.99 rel = 0.99)"
    by (simp add: spec_clamp_def)
  have j: "0.98 \<le> 0.98 + (1.05 - 0.98) * g (length (segments_of d p) + 1) \<and>
           0.98 + (1.05 - 0.98) * g (length (segments_of d p) + 1) \<le> 1.05"
    using assms jitter_range [of "g (length (segments_of d p) + 1)"]
    by (simp add: unit_draws_def)
  show ?thesis
    unfolding Let_def simulate_time_minutes_unfold c
    using fp j by simp
qed

theorem dnf_single_trial_witness:
  "unit_draws (\<lambda>_. 995 / 1000) \<and>
   simulate_time_minutes 220 5.2 85 1.0 100 ''Fast asphalt'' (\<lambda>_. 995 / 1000)
     = ((fst (segment_loop 220 (handling_scale_of 85) (accel_scale_of 5.2)
                (segments_of 100 ''Fast asphalt'') 0 (\<lambda>_. 995 / 1000)), True),
        \<lambda>_. 995 / 1000)"
proof -
  have u: "unit_draws (\<lambda>_. 995 / 1000)" by (simp add: unit_draws_def)
  have c: "spec_clamp 0.05 0.99 (1.0::real) = 0.99" by (simp add: spec_clamp_def)
  show ?thesis
    using u dnf_single_trial [OF u, of 100 "''Fast asphalt''" "1.0" 220 85 "5.2"]
    unfolding Let_def c by (auto simp: prod_eq_iff)
qed


section \<open>Properties of the ledger\<close>

lemma record_transaction_fields:
  "TRANSACTIONS (record_transaction c t r a reason cur) =
     TRANSACTIONS c @ [\<lparr>X_TEAM_ID = t, X_RACE_ID = r, X_AMOUNT = a,
                        X_CURRENCY = cur, X_REASON = reason\<rparr>]"
  "RACES (record_transaction c t r a reason cur) = RACES c"
  "RACE_RESULTS (record_transaction c t r a reason cur) = RACE_RESULTS c"
  "length (TEAMS (record_transaction c t r a reason cur)) = length (TEAMS c)"
  by (simp_all add: record_transaction_def Let_def)

lemma record_transaction_team:
  assumes "i < length (TEAMS c)"
  shows "TEAMS (record_transaction c t r a reason cur) ! i =
           (if T_TEAM_ID (TEAMS c ! i) = t
            then (TEAMS c ! i)\<lparr>T_BUDGET := Some (coalesce (T_BUDGET (TEAMS c ! i)) 0 + a)\<rparr>
            else TEAMS c ! i)"
  using assms by (simp add: record_transaction_def Let_def)

lemma record_all_Nil: "record_all [] c = c"
  by (simp add: record_all_def)

lemma record_all_Cons:
  "record_all (x # xs) c =
     record_all xs (record_transaction c (X_TEAM_ID x) (X_RACE_ID x) (X_AMOUNT x)
                      (X_REASON x) (X_CURRENCY x))"
  by (simp add: record_all_def)

lemma record_all_append: "record_all (xs @ ys) c = record_all ys (record_all xs c)"
  by (simp add: record_all_def)

lemma record_all_fields:
  "TRANSACTIONS (record_all xs c) = TRANSACTIONS c @ xs \<and>
   RACES (record_all xs c) = RACES c \<and>
   RACE_RESULTS (record_all xs c) = RACE_RESULTS c \<and>
   length (TEAMS (record_all xs c)) = length (TEAMS c)"
proof (induction xs arbitrary: c)
  case Nil
  show ?case by (simp add: record_all_Nil)
next
  case (Cons x xs)
  show ?case
    unfolding record_all_Cons by (simp add: Cons.IH record_transaction_fields)
qed

lemma record_all_team:
  assumes "i < length (TEAMS c)"
  shows "T_TEAM_ID (TEAMS (record_all xs c) ! i) = T_TEAM_ID (TEAMS c ! i) \<and>
         T_TEAM_NAME (TEAMS (record_all xs c) ! i) = T_TEAM_NAME (TEAMS c ! i) \<and>
         T_MEMBERS (TEAMS (record_all xs c) ! i) = T_MEMBERS (TEAMS c ! i) \<and>
         coalesce (T_BUDGET (TEAMS (record_all xs c) ! i)) 0 =
           coalesce (T_BUDGET (TEAMS c ! i)) 0 + team_total (T_TEAM_ID (TEAMS c ! i)) xs"
  using assms
proof (induction xs arbitrary: c)
  case Nil
  show ?case by (simp add: record_all_Nil team_total_def)
next
  case (Cons x xs)
  let ?c1 = "record_transaction c (X_TEAM_ID x) (X_RACE_ID x) (X_AMOUNT x) (X_REASON x) (X_CURRENCY x)"
  have len: "i < length (TEAMS ?c1)"
    using Cons.prems by (simp add: record_transaction_fields)
  have step: "TEAMS ?c1 ! i =
      (if T_TEAM_ID (TEAMS c ! i) = X_TEAM_ID x
       then (TEAMS c ! i)\<lparr>T_BUDGET := Some (coalesce (T_BUDGET (TEAMS c ! i)) 0 + X_AMOUNT x)\<rparr>
       else TEAMS c ! i)"
    using Cons.prems by (rule record_transaction_team)
  show ?case
    unfolding record_all_Cons
    using Cons.IH [OF len] step
    by (auto simp: team_total_def coalesce_def)
qed

lemma entry_fee_loop_record_all:
  "entry_fee_loop team_ids race_id entry_fee race_name c =
     record_all (entry_fee_transactions team_ids race_id entry_fee race_name) c"
  by (induction team_ids arbitrary: c)
     (simp_all add: entry_fee_loop_def record_all_def entry_fee_transactions_def)

lemma prize_fold_record_all:
  "fold (\<lambda>idx c.
           let team_id = TEAM_ID (results ! (finishers ! idx));
               amount = prizes ! idx
           in if amount > 0
              then record_transaction c team_id (Some race_id) amount
                     (''Prize for position '' @ str_nat (idx + 1) @ '' in '' @ race_name) ''USD''
              else c) idxs c =
   record_all
     (map (\<lambda>idx. \<lparr>X_TEAM_ID = TEAM_ID (results ! (finishers ! idx)), X_RACE_ID = Some race_id,
                  X_AMOUNT = prizes ! idx, X_CURRENCY = ''USD'',
                  X_REASON = ''Prize for position '' @ str_nat (idx + 1) @ '' in '' @ race_name\<rparr>)
          (filter (\<lambda>idx. prizes ! idx > 0) idxs)) c"
  by (induction idxs arbitrary: c) (simp_all add: record_all_def Let_def)

lemma prize_loop_record_all:
  "prize_loop prizes results finishers race_id race_name c =
     record_all (prize_transactions prizes results finishers race_id race_name) c"
  unfolding prize_loop_def prize_transactions_def prize_ranks_def
  by (rule prize_fold_record_all)

lemma insert_results_loop_eq:
  "insert_results_loop race_id results c =
     c\<lparr>RACE_RESULTS := RACE_RESULTS c @ map (result_row race_id) results\<rparr>"
proof (induction results arbitrary: c)
  case Nil
  show ?case by (simp add: insert_results_loop_def)
next
  case (Cons r rs)
  have "insert_results_loop race_id (r # rs) c =
        insert_results_loop race_id rs
          (insert_race_result c race_id (CAR_ID r) (TEAM_ID r) (TIME_MIN r)
             (if \<not> DNF r then ''FINISHED'' else ''DNF'') (POSITION r))"
    by (simp add: insert_results_loop_def)
  then show ?case
    by (simp add: Cons.IH insert_race_result_def result_row_def)
qed

lemma participating_team_ids_props:
  "sorted (participating_team_ids cars_df) \<and> distinct (participating_team_ids cars_df) \<and>
   set (participating_team_ids cars_df) = C_TEAM_ID ` set cars_df \<and>
   length (participating_team_ids cars_df) = card (C_TEAM_ID ` set cars_df) \<and>
   participating_team_ids cars_df = sorted_list_of_set (C_TEAM_ID ` set cars_df)"
proof -
  have s: "sorted (participating_team_ids cars_df)"
    by (simp add: participating_team_ids_def)
  have d: "distinct (participating_team_ids cars_df)"
    by (simp add: participating_team_ids_def)
  have e: "set (participating_team_ids cars_df) = C_TEAM_ID ` set cars_df"
    by (simp add: participating_team_ids_def)
  have l: "length (participating_team_ids cars_df) = card (C_TEAM_ID ` set cars_df)"
    using distinct_card [OF d] e by simp
  have "sorted_list_of_set (set (participating_team_ids cars_df)) = participating_team_ids cars_df"
    using s d by (simp add: sorted_list_of_set.idem_if_sorted_distinct)
  with s d e l show ?thesis by simp
qed

lemma entry_fee_total:
  "sum_list (map X_AMOUNT (entry_fee_transactions team_ids race_id entry_fee race_name)) =
     - (entry_fee * real (length team_ids))"
  by (induction team_ids) (simp_all add: entry_fee_transactions_def algebra_simps)

section \<open>Properties of the race results\<close>

lemma simulate_all_Cons:
  "simulate_all d p (row # rows) g =
     (let s = simulate_time_minutes (C_TOP_SPEED_KMH row) (C_ACCELERATION_0_100_S row)
                (C_HANDLING row) (C_RELIABILITY row) d p g;
          rest = simulate_all d p rows (snd s)
      in (\<lparr>CAR_ID = C_CAR_ID row, CAR_NAME = C_CAR_NAME row, TEAM_ID = C_TEAM_ID row,
           TEAM_NAME = C_TEAM_NAME row,
           TIME_MIN = (if \<not> snd (fst s) then Some (fst (fst s)) else None),
           DNF = snd (fst s), POSITION = None\<rparr> # fst rest, snd rest))"
  by (simp add: Let_def split: prod.splits)

lemma simulate_all_length: "length (fst (simulate_all d p cars g)) = length cars"
proof (induction cars arbitrary: g)
  case Nil
  show ?case by simp
next
  case (Cons row rows)
  show ?case unfolding simulate_all_Cons Let_def by (simp add: Cons.IH)
qed

lemma simulate_all_rows:
  "r \<in> set (fst (simulate_all d p cars g)) \<Longrightarrow>
     (TIME_MIN r = None \<longleftrightarrow> DNF r) \<and> POSITION r = None"
proof (induction cars arbitrary: g)
  case Nil
  then show ?case by simp
next
  case (Cons row rows)
  let ?s = "simulate_time_minutes (C_TOP_SPEED_KMH row) (C_ACCELERATION_0_100_S row)
              (C_HANDLING row) (C_RELIABILITY row) d p g"
  let ?x = "\<lparr>CAR_ID = C_CAR_ID row, CAR_NAME = C_CAR_NAME row, TEAM_ID = C_TEAM_ID row,
             TEAM_NAME = C_TEAM_NAME row,
             TIME_MIN = (if \<not> snd (fst ?s) then Some (fst (fst ?s)) else None),
             DNF = snd (fst ?s), POSITION = None\<rparr>"
  from Cons.prems have "r = ?x \<or> r \<in> set (fst (simulate_all d p rows (snd ?s)))"
    unfolding simulate_all_Cons Let_def by simp
  then show ?case
  proof
    assume "r = ?x"
    then show ?thesis by simp
  next
    assume "r \<in> set (fst (simulate_all d p rows (snd ?s)))"
    then show ?thesis by (rule Cons.IH)
  qed
qed

lemma simulate_all_teams:
  "map TEAM_ID (fst (simulate_all d p cars g)) = map C_TEAM_ID cars \<and>
   map CAR_ID (fst (simulate_all d p cars g)) = map C_CAR_ID cars"
proof (induction cars arbitrary: g)
  case Nil
  show ?case by simp
next
  case (Cons row rows)
  show ?case unfolding simulate_all_Cons Let_def by (simp add: Cons.IH)
qed

lemma key_less_trans1: "key_less a b \<Longrightarrow> \<not> key_less c b \<Longrightarrow> key_less a c"
  by (cases a; cases b; cases c) auto

lemma key_less_trans2: "\<not> key_less b a \<Longrightarrow> key_less b c \<Longrightarrow> key_less a c"
  by (cases a; cases b; cases c) auto

lemma key_less_trans3: "\<not> key_less b a \<Longrightarrow> \<not> key_less c b \<Longrightarrow> \<not> key_less c a"
  by (cases a; cases b; cases c) auto

lemma key_less_irrefl: "\<not> key_less a a"
  by (cases a) auto

lemma min_fold:
  fixes K :: "nat \<Rightarrow> real option"
  assumes "sorted_wrt (<) js" and "\<forall>j \<in> set js. b < j"
  defines "b' \<equiv> fold (\<lambda>j best. if key_less (K j) (K best) then j else best) js b"
  shows "b' \<in> insert b (set js) \<and>
         (\<forall>j \<in> insert b (set js). \<not> key_less (K j) (K b')) \<and>
         (\<forall>j \<in> insert b (set js). j < b' \<longrightarrow> key_less (K b') (K j))"
  using assms(1,2) unfolding b'_def
proof (induction js arbitrary: b)
  case Nil
  show ?case by (simp add: key_less_irrefl)
next
  case (Cons j js)
  let ?f = "\<lambda>j best. if key_less (K j) (K best) then j else best"
  let ?b1 = "?f j b"
  let ?r = "fold ?f js ?b1"
  have bj: "b < j" using Cons.prems(2) by simp
  have s: "sorted_wrt (<) js" using Cons.prems(1) by simp
  have gt: "\<forall>x \<in> set js. ?b1 < x"
    using Cons.prems by auto
  note IH = Cons.IH [OF s gt]
  have mem: "?r \<in> insert ?b1 (set js)" using IH by blast
  have least: "\<forall>x \<in> insert ?b1 (set js). \<not> key_less (K x) (K ?r)" using IH by blast
  have first: "\<forall>x \<in> insert ?b1 (set js). x < ?r \<longrightarrow> key_less (K ?r) (K x)" using IH by blast
  have b1r: "\<not> key_less (K ?b1) (K ?r)" using least by blast
  have ge: "b \<le> ?r"
    using mem gt bj by (auto split: if_splits)
  show ?case
  proof (cases "key_less (K j) (K b)")
    case True
    then have b1: "?b1 = j" by simp
    have jr: "\<not> key_less (K j) (K ?r)" using b1r b1 by simp
    have rb: "key_less (K ?r) (K b)"
      using key_less_trans2 [OF jr True] .
    have nb: "\<not> key_less (K b) (K ?r)"
      using rb by (cases "K b"; cases "K ?r") auto
    have m: "?r \<in> insert b (set (j # js))" using mem b1 by auto
    have l: "\<forall>x \<in> insert b (set (j # js)). \<not> key_less (K x) (K ?r)"
      using least nb b1 by auto
    have f: "\<forall>x \<in> insert b (set (j # js)). x < ?r \<longrightarrow> key_less (K ?r) (K x)"
      using first rb b1 by auto
    show ?thesis using m l f by simp
  next
    case False
    then have b1: "?b1 = b" by simp
    have br: "\<not> key_less (K b) (K ?r)" using b1r b1 by simp
    have nj: "\<not> key_less (K j) (K ?r)"
      using key_less_trans3 [OF br False] .
    have m: "?r \<in> insert b (set (j # js))" using mem b1 by auto
    have l: "\<forall>x \<in> insert b (set (j # js)). \<not> key_less (K x) (K ?r)"
      using least br nj b1 by auto
    have fj: "j < ?r \<longrightarrow> key_less (K ?r) (K j)"
    proof
      assume "j < ?r"
      with bj have "b < ?r" by simp
      then have "key_less (K ?r) (K b)" using first b1 by auto
      then show "key_less (K ?r) (K j)" using False by (rule key_less_trans1)
    qed
    have f: "\<forall>x \<in> insert b (set (j # js)). x < ?r \<longrightarrow> key_less (K ?r) (K x)"
      using first fj b1 by auto
    show ?thesis using m l f by simp
  qed
qed

lemma min_index_eq:
  assumes "results \<noteq> []"
  shows "min_index results =
           Inr (fold (\<lambda>j best. if key_less (time_key (results ! j)) (time_key (results ! best))
                                then j else best) [1..<length results] 0)"
proof -
  have "0 < length results" using assms by simp
  then have "[0..<length results] = 0 # [1..<length results]"
    by (simp add: upt_conv_Cons)
  then show ?thesis by (simp add: min_index_def)
qed

lemma min_index_first_least:
  assumes "min_index results = Inr b"
  shows "b < length results \<and>
         (\<forall>i < length results. \<not> key_less (time_key (results ! i)) (time_key (results ! b))) \<and>
         (\<forall>i < b. key_less (time_key (results ! b)) (time_key (results ! i)))"
proof -
  have ne: "results \<noteq> []"
    using assms by (auto simp: min_index_def)
  let ?K = "\<lambda>i. time_key (results ! i)"
  have b: "b = fold (\<lambda>j best. if key_less (?K j) (?K best) then j else best) [1..<length results] 0"
    using assms min_index_eq [OF ne] by simp
  have s: "sorted_wrt (<) [1..<length results]" by simp
  have g: "\<forall>j \<in> set [1..<length results]. 0 < j" by simp
  have ins: "insert 0 (set [1..<length results]) = {i. i < length results}"
    using ne by (auto simp: Suc_le_eq)
  from min_fold [OF s g, of ?K] have
    "b \<in> insert 0 (set [1..<length results]) \<and>
     (\<forall>j \<in> insert 0 (set [1..<length results]). \<not> key_less (?K j) (?K b)) \<and>
     (\<forall>j \<in> insert 0 (set [1..<length results]). j < b \<longrightarrow> key_less (?K b) (?K j))"
    unfolding b by blast
  then show ?thesis unfolding ins by auto
qed

lemma min_index_no_times:
  assumes "results \<noteq> []" and "\<forall>r \<in> set results. TIME_MIN r = None"
  shows "min_index results = Inr 0"
proof -
  obtain b where b: "min_index results = Inr b"
    using min_index_eq [OF assms(1)] by blast
  have k: "time_key (results ! i) = None" if "i < length results" for i
    using assms(2) that by (simp add: time_key_def)
  have "b = 0"
  proof (rule ccontr)
    assume "b \<noteq> 0"
    then have "0 < b" by simp
    moreover have "b < length results" using min_index_first_least [OF b] by blast
    ultimately have "key_less (time_key (results ! b)) (time_key (results ! 0))"
      using min_index_first_least [OF b] by blast
    then show False using k [of b] \<open>b < length results\<close> by simp
  qed
  with b show ?thesis by simp
qed

lemma rescue_all_dnf:
  assumes "min_index results = Inr b" and "list_all DNF results"
  shows "rescue d results g =
           Inr (results[b := forced_finish d g (results ! b)],
                if TIME_MIN (results ! b) = None then (\<lambda>n. g (Suc n)) else g)"
proof -
  have b: "b < length results"
    using min_index_first_least [OF assms(1)] by blast
  have e: "r\<lparr>DNF := False, TIME_MIN := Some a\<rparr> = r\<lparr>DNF := False\<rparr>"
    if "TIME_MIN r = Some a" for r :: result and a
    using that by (cases r) simp
  show ?thesis
    using b assms
    by (cases "TIME_MIN (results ! b)")
       (simp_all add: rescue_def forced_finish_def random_uniform_def random_random_def Let_def e)
qed

lemma rescue_some_finisher:
  assumes "\<not> list_all DNF results"
  shows "rescue d results g = Inr (results, g)"
  using assms by (simp add: rescue_def)

lemma forced_finish_ok: "POSITION r = None \<Longrightarrow> unranked_ok (forced_finish d g r) \<and> \<not> DNF (forced_finish d g r)"
  by (simp add: unranked_ok_def forced_finish_def)

lemma rescue_ok:
  assumes "results \<noteq> []" and "\<forall>r \<in> set results. unranked_ok r"
  shows "\<exists>rs1 g1. rescue d results g = Inr (rs1, g1) \<and>
           length rs1 = length results \<and>
           (\<forall>r \<in> set rs1. unranked_ok r) \<and>
           (\<exists>r \<in> set rs1. \<not> DNF r) \<and>
           map TEAM_ID rs1 = map TEAM_ID results \<and>
           map CAR_ID rs1 = map CAR_ID results"
proof (cases "list_all DNF results")
  case True
  obtain b where b: "min_index results = Inr b"
    using min_index_eq [OF assms(1)] by blast
  have bl: "b < length results"
    using min_index_first_least [OF b] by blast
  let ?x = "forced_finish d g (results ! b)"
  let ?rs1 = "results[b := ?x]"
  have pos: "POSITION (results ! b) = None"
    using assms(2) bl by (simp add: unranked_ok_def)
  have x: "unranked_ok ?x \<and> \<not> DNF ?x"
    using pos by (rule forced_finish_ok)
  have "set ?rs1 \<subseteq> insert ?x (set results)"
    by (rule set_update_subset_insert)
  then have ok: "\<forall>r \<in> set ?rs1. unranked_ok r"
    using assms(2) x by auto
  have "?x \<in> set ?rs1"
    using bl by (simp add: set_update_memI)
  then have fin: "\<exists>r \<in> set ?rs1. \<not> DNF r"
    using x by blast
  have t: "map TEAM_ID ?rs1 = map TEAM_ID results"
    using bl by (simp add: map_update forced_finish_def list_update_same_conv)
  have c: "map CAR_ID ?rs1 = map CAR_ID results"
    using bl by (simp add: map_update forced_finish_def list_update_same_conv)
  show ?thesis
    using rescue_all_dnf [OF b True, of d g] ok fin t c by simp
next
  case False
  then have "\<exists>r \<in> set results. \<not> DNF r"
    by (simp add: list_all_iff)
  then show ?thesis
    using rescue_some_finisher [OF False, of d g] assms(2) by simp
qed

lemma finisher_indices_props:
  "set (finisher_indices rs) = {i. i < length rs \<and> \<not> DNF (rs ! i)} \<and>
   distinct (finisher_indices rs)"
  by (auto simp: finisher_indices_def)

lemma filter_as_indices: "filter P rs = map ((!) rs) (filter (\<lambda>i. P (rs ! i)) [0..<length rs])"
proof -
  have "filter P (map ((!) rs) [0..<length rs]) = map ((!) rs) (filter (\<lambda>i. P (rs ! i)) [0..<length rs])"
    by (simp add: filter_map comp_def)
  then show ?thesis by (simp add: map_nth)
qed

lemma finishers_as_indices:
  "filter (\<lambda>r. \<not> DNF r) rs = map ((!) rs) (finisher_indices rs)"
  unfolding finisher_indices_def by (rule filter_as_indices)

lemma sort_finishers_ok:
  assumes "\<forall>r \<in> set rs. unranked_ok r"
  shows "sort_finishers rs (finisher_indices rs) =
           Inr (sort_key (\<lambda>i. TIME_MIN (rs ! i)) (finisher_indices rs))"
proof -
  have "TIME_MIN (rs ! i) \<noteq> None" if "i \<in> set (finisher_indices rs)" for i
  proof -
    from that have "i < length rs" "\<not> DNF (rs ! i)"
      using finisher_indices_props [of rs] by auto
    then show ?thesis using assms by (auto simp: unranked_ok_def)
  qed
  then have "\<not> list_ex (\<lambda>i. TIME_MIN (rs ! i) = None) (finisher_indices rs)"
    by (auto simp: list_ex_iff)
  then show ?thesis by (simp add: sort_finishers_def)
qed

lemma assign_positions_length [simp]: "length (assign_positions is pos rs) = length rs"
  by (induction "is" arbitrary: pos rs) simp_all

lemma assign_positions_other:
  "j \<notin> set is \<Longrightarrow> assign_positions is pos rs ! j = rs ! j"
  by (induction "is" arbitrary: pos rs) simp_all

lemma assign_positions_at:
  assumes "distinct is" and "\<forall>i \<in> set is. i < length rs" and "k < length is"
  shows "assign_positions is pos rs ! (is ! k) = (rs ! (is ! k))\<lparr>POSITION := Some (pos + int k)\<rparr>"
  using assms
proof (induction "is" arbitrary: pos rs k)
  case Nil
  then show ?case by simp
next
  case (Cons i rest)
  let ?rs' = "rs[i := (rs ! i)\<lparr>POSITION := Some pos\<rparr>]"
  have i: "i < length rs" "i \<notin> set rest" "distinct rest"
    using Cons.prems by simp_all
  show ?case
  proof (cases k)
    case 0
    then show ?thesis
      using i by (simp add: assign_positions_other)
  next
    case (Suc k')
    have k': "k' < length rest" using Cons.prems(3) Suc by simp
    have b: "\<forall>x \<in> set rest. x < length ?rs'" using Cons.prems(2) by simp
    have ne: "rest ! k' \<noteq> i" using i(2) k' by (metis nth_mem)
    have "assign_positions rest (pos + 1) ?rs' ! (rest ! k') =
            (?rs' ! (rest ! k'))\<lparr>POSITION := Some (pos + 1 + int k')\<rparr>"
      using Cons.IH [OF i(3) b k'] .
    then show ?thesis
      using Suc ne by (simp add: add.assoc)
  qed
qed

lemma run_race_ok:
  assumes "cars \<noteq> []"
  shows "\<exists>rs1 g1.
           rescue d (fst (simulate_all d p cars g)) (snd (simulate_all d p cars g)) = Inr (rs1, g1) \<and>
           run_race d p cars g =
             Inr ((assign_positions (sort_key (\<lambda>i. TIME_MIN (rs1 ! i)) (finisher_indices rs1)) 1 rs1,
                   sort_key (\<lambda>i. TIME_MIN (rs1 ! i)) (finisher_indices rs1)), g1) \<and>
           length rs1 = length cars \<and>
           (\<forall>r \<in> set rs1. unranked_ok r) \<and>
           (\<exists>r \<in> set rs1. \<not> DNF r) \<and>
           map TEAM_ID rs1 = map C_TEAM_ID cars \<and>
           map CAR_ID rs1 = map C_CAR_ID cars"
proof -
  let ?rs0 = "fst (simulate_all d p cars g)"
  let ?g0 = "snd (simulate_all d p cars g)"
  have len0: "length ?rs0 = length cars" by (rule simulate_all_length)
  then have ne: "?rs0 \<noteq> []" using assms by auto
  have ok0: "\<forall>r \<in> set ?rs0. unranked_ok r"
    using simulate_all_rows [of _ d p cars g] by (simp add: unranked_ok_def)
  from rescue_ok [OF ne ok0, of d ?g0] obtain rs1 g1 where
    r: "rescue d ?rs0 ?g0 = Inr (rs1, g1)" and
    len1: "length rs1 = length ?rs0" and
    ok1: "\<forall>r \<in> set rs1. unranked_ok r" and
    fin1: "\<exists>r \<in> set rs1. \<not> DNF r" and
    t1: "map TEAM_ID rs1 = map TEAM_ID ?rs0" and
    c1: "map CAR_ID rs1 = map CAR_ID ?rs0"
    by blast
  have run: "run_race d p cars g =
      Inr ((assign_positions (sort_key (\<lambda>i. TIME_MIN (rs1 ! i)) (finisher_indices rs1)) 1 rs1,
            sort_key (\<lambda>i. TIME_MIN (rs1 ! i)) (finisher_indices rs1)), g1)"
    using r sort_finishers_ok [OF ok1]
    by (simp add: run_race_def case_prod_beta)
  show ?thesis
    using r run len1 len0 ok1 fin1 t1 c1 simulate_all_teams [of d p cars g] by auto
qed

lemma ranked_index_facts:
  assumes ok: "\<forall>r \<in> set rs1. unranked_ok r"
  defines "fin \<equiv> sort_key (\<lambda>i. TIME_MIN (rs1 ! i)) (finisher_indices rs1)"
  defines "rs \<equiv> assign_positions fin 1 rs1"
  shows "length rs = length rs1"
    and "distinct fin"
    and "set fin = {j. j < length rs1 \<and> \<not> DNF (rs1 ! j)}"
    and "\<And>j. j < length rs1 \<Longrightarrow> rs ! j = (rs1 ! j)\<lparr>POSITION := POSITION (rs ! j)\<rparr>"
    and "\<And>k. k < length fin \<Longrightarrow> POSITION (rs ! (fin ! k)) = Some (int k + 1)"
    and "\<And>j. j < length rs1 \<Longrightarrow> j \<notin> set fin \<Longrightarrow> POSITION (rs ! j) = None"
    and "\<And>k k'. k \<le> k' \<Longrightarrow> k' < length fin \<Longrightarrow>
           TIME_MIN (rs1 ! (fin ! k)) \<le> TIME_MIN (rs1 ! (fin ! k'))"
proof -
  show len: "length rs = length rs1" by (simp add: rs_def)
  show d: "distinct fin"
    using finisher_indices_props [of rs1] by (simp add: fin_def)
  show s: "set fin = {j. j < length rs1 \<and> \<not> DNF (rs1 ! j)}"
    using finisher_indices_props [of rs1] by (simp add: fin_def)
  have b: "\<forall>i \<in> set fin. i < length rs1" using s by simp
  have at: "rs ! (fin ! k) = (rs1 ! (fin ! k))\<lparr>POSITION := Some (1 + int k)\<rparr>"
    if "k < length fin" for k
    unfolding rs_def using d b that by (rule assign_positions_at)
  have other: "rs ! j = rs1 ! j" if "j \<notin> set fin" for j
    unfolding rs_def using that by (rule assign_positions_other)
  show "rs ! j = (rs1 ! j)\<lparr>POSITION := POSITION (rs ! j)\<rparr>" if "j < length rs1" for j
  proof (cases "j \<in> set fin")
    case True
    then obtain k where "k < length fin" "fin ! k = j"
      by (auto simp: in_set_conv_nth)
    then show ?thesis using at [of k] by simp
  next
    case False
    then show ?thesis using other [of j] by simp
  qed
  show "POSITION (rs ! (fin ! k)) = Some (int k + 1)" if "k < length fin" for k
    using at [OF that] by (simp add: add.commute)
  show "POSITION (rs ! j) = None" if "j < length rs1" "j \<notin> set fin" for j
  proof -
    have "rs1 ! j \<in> set rs1" using that(1) by simp
    then have "POSITION (rs1 ! j) = None" using ok by (simp add: unranked_ok_def)
    then show ?thesis using other [OF that(2)] by simp
  qed
  show "TIME_MIN (rs1 ! (fin ! k)) \<le> TIME_MIN (rs1 ! (fin ! k'))"
    if "k \<le> k'" "k' < length fin" for k k'
  proof -
    have "sorted (map (\<lambda>i. TIME_MIN (rs1 ! i)) fin)"
      unfolding fin_def by (rule sorted_sort_key)
    then have "map (\<lambda>i. TIME_MIN (rs1 ! i)) fin ! k \<le> map (\<lambda>i. TIME_MIN (rs1 ! i)) fin ! k'"
      using that by (simp add: sorted_iff_nth_mono del: nth_map)
    then show ?thesis using that by simp
  qed
qed

lemma rank_values: "(\<lambda>k. Some (int k + 1)) ` {k. k < n} = Some ` {1..int n}"
proof -
  have "(\<lambda>k. int k + 1) ` {k. k < n} = {1..int n}"
  proof (rule set_eqI)
    fix x :: int
    show "x \<in> (\<lambda>k. int k + 1) ` {k. k < n} \<longleftrightarrow> x \<in> {1..int n}"
    proof
      assume "x \<in> (\<lambda>k. int k + 1) ` {k. k < n}"
      then show "x \<in> {1..int n}" by auto
    next
      assume x: "x \<in> {1..int n}"
      then have "nat (x - 1) < n" "x = int (nat (x - 1)) + 1" by auto
      then show "x \<in> (\<lambda>k. int k + 1) ` {k. k < n}" by blast
    qed
  qed
  then have "Some ` ((\<lambda>k. int k + 1) ` {k. k < n}) = Some ` {1..int n}" by simp
  then show ?thesis by (simp add: image_image)
qed

lemma ranked_row_facts:
  assumes ok: "\<forall>r \<in> set rs1. unranked_ok r"
  defines "fin \<equiv> sort_key (\<lambda>i. TIME_MIN (rs1 ! i)) (finisher_indices rs1)"
  defines "rs \<equiv> assign_positions fin 1 rs1"
  defines "n \<equiv> length (filter (\<lambda>r. \<not> DNF r) rs)"
  shows "\<forall>r \<in> set rs. (POSITION r \<noteq> None \<longleftrightarrow> \<not> DNF r) \<and> (TIME_MIN r \<noteq> None \<longleftrightarrow> \<not> DNF r)"
    and "length fin = n"
    and "distinct (map POSITION (filter (\<lambda>r. \<not> DNF r) rs))"
    and "set (map POSITION (filter (\<lambda>r. \<not> DNF r) rs)) = Some ` {1..int n}"
    and "\<forall>r \<in> set rs. \<forall>r' \<in> set rs. \<forall>a b t t'.
           POSITION r = Some a \<and> POSITION r' = Some b \<and> a \<le> b \<and>
           TIME_MIN r = Some t \<and> TIME_MIN r' = Some t' \<longrightarrow> t \<le> t'"
    and "\<forall>k < length fin. \<forall>r \<in> set rs. POSITION r = Some (int k + 1) \<longrightarrow> r = rs ! (fin ! k)"
proof -
  note f = ranked_index_facts [OF ok, folded fin_def, folded rs_def]
  have len: "length rs = length rs1" by (rule f(1))
  have same: "DNF (rs ! j) = DNF (rs1 ! j) \<and> TIME_MIN (rs ! j) = TIME_MIN (rs1 ! j)"
    if "j < length rs1" for j
  proof -
    have "rs ! j = (rs1 ! j)\<lparr>POSITION := POSITION (rs ! j)\<rparr>" using that by (rule f(4))
    then have "DNF (rs ! j) = DNF ((rs1 ! j)\<lparr>POSITION := POSITION (rs ! j)\<rparr>)"
      "TIME_MIN (rs ! j) = TIME_MIN ((rs1 ! j)\<lparr>POSITION := POSITION (rs ! j)\<rparr>)"
      by simp_all
    then show ?thesis by simp
  qed
  have mem: "j \<in> set fin \<longleftrightarrow> \<not> DNF (rs ! j)" if "j < length rs1" for j
    using that same [OF that] f(3) by simp
  have pos: "POSITION (rs ! j) \<noteq> None \<longleftrightarrow> j \<in> set fin" if "j < length rs1" for j
  proof (cases "j \<in> set fin")
    case True
    then obtain k where "k < length fin" "fin ! k = j" by (auto simp: in_set_conv_nth)
    then show ?thesis using f(5) [of k] True by auto
  next
    case False
    then show ?thesis using f(6) [OF that] by simp
  qed
  have time: "TIME_MIN (rs ! j) \<noteq> None \<longleftrightarrow> \<not> DNF (rs ! j)" if "j < length rs1" for j
  proof -
    have "rs1 ! j \<in> set rs1" using that by simp
    then have "TIME_MIN (rs1 ! j) = None \<longleftrightarrow> DNF (rs1 ! j)"
      using ok by (simp add: unranked_ok_def)
    then show ?thesis using same [OF that] by simp
  qed
  show rows: "\<forall>r \<in> set rs. (POSITION r \<noteq> None \<longleftrightarrow> \<not> DNF r) \<and> (TIME_MIN r \<noteq> None \<longleftrightarrow> \<not> DNF r)"
  proof
    fix r assume "r \<in> set rs"
    then obtain j where j: "j < length rs1" "r = rs ! j"
      using len by (auto simp: in_set_conv_nth)
    show "(POSITION r \<noteq> None \<longleftrightarrow> \<not> DNF r) \<and> (TIME_MIN r \<noteq> None \<longleftrightarrow> \<not> DNF r)"
      using pos [OF j(1)] mem [OF j(1)] time [OF j(1)] j(2) by simp
  qed
  have fi: "finisher_indices rs = finisher_indices rs1"
    unfolding finisher_indices_def len
    by (rule filter_cong) (auto simp: same)
  have filt: "filter (\<lambda>r. \<not> DNF r) rs = map ((!) rs) (finisher_indices rs1)"
    using finishers_as_indices [of rs] fi by simp
  have lf: "length fin = length (finisher_indices rs1)" by (simp add: fin_def)
  show n: "length fin = n"
    unfolding n_def filt lf by simp
  have sf: "set (finisher_indices rs1) = set fin" by (simp add: fin_def)
  have df: "distinct (finisher_indices rs1)"
    using finisher_indices_props [of rs1] by simp
  have inj: "inj_on (\<lambda>i. POSITION (rs ! i)) (set fin)"
  proof (rule inj_onI)
    fix i j assume i: "i \<in> set fin" and j: "j \<in> set fin"
      and e: "POSITION (rs ! i) = POSITION (rs ! j)"
    from i obtain k where k: "k < length fin" "fin ! k = i" by (auto simp: in_set_conv_nth)
    from j obtain k' where k': "k' < length fin" "fin ! k' = j" by (auto simp: in_set_conv_nth)
    have "Some (int k + 1) = Some (int k' + 1)"
      using e f(5) [OF k(1)] f(5) [OF k'(1)] k(2) k'(2) by simp
    then have "k = k'" by simp
    then show "i = j" using k(2) k'(2) by simp
  qed
  have mp: "map POSITION (filter (\<lambda>r. \<not> DNF r) rs) = map (\<lambda>i. POSITION (rs ! i)) (finisher_indices rs1)"
    unfolding filt by simp
  show "distinct (map POSITION (filter (\<lambda>r. \<not> DNF r) rs))"
    unfolding mp using df inj sf by (simp add: distinct_map)
  have img: "(\<lambda>i. POSITION (rs ! i)) ` set fin = (\<lambda>k. Some (int k + 1)) ` {k. k < length fin}"
  proof (rule set_eqI)
    fix x
    show "x \<in> (\<lambda>i. POSITION (rs ! i)) ` set fin \<longleftrightarrow> x \<in> (\<lambda>k. Some (int k + 1)) ` {k. k < length fin}"
    proof
      assume "x \<in> (\<lambda>i. POSITION (rs ! i)) ` set fin"
      then obtain i where "i \<in> set fin" "x = POSITION (rs ! i)" by blast
      then obtain k where "k < length fin" "x = POSITION (rs ! (fin ! k))"
        by (auto simp: in_set_conv_nth)
      then show "x \<in> (\<lambda>k. Some (int k + 1)) ` {k. k < length fin}"
        using f(5) [of k] by auto
    next
      assume "x \<in> (\<lambda>k. Some (int k + 1)) ` {k. k < length fin}"
      then obtain k where k: "k < length fin" "x = Some (int k + 1)" by blast
      then have "x = POSITION (rs ! (fin ! k))" using f(5) [of k] by simp
      moreover have "fin ! k \<in> set fin" using k(1) by simp
      ultimately show "x \<in> (\<lambda>i. POSITION (rs ! i)) ` set fin" by blast
    qed
  qed
  show "set (map POSITION (filter (\<lambda>r. \<not> DNF r) rs)) = Some ` {1..int n}"
    unfolding mp using img sf rank_values [of "length fin"] n by simp
  have at_rank: "j = fin ! k"
    if "j < length rs1" "k < length fin" "POSITION (rs ! j) = Some (int k + 1)" for j k
  proof -
    have "j \<in> set fin" using pos [OF that(1)] that(3) by simp
    then obtain k' where k': "k' < length fin" "fin ! k' = j" by (auto simp: in_set_conv_nth)
    then have "Some (int k' + 1) = Some (int k + 1)" using f(5) [OF k'(1)] that(3) by simp
    then have "k' = k" by simp
    then show ?thesis using k'(2) by simp
  qed
  show "\<forall>k < length fin. \<forall>r \<in> set rs. POSITION r = Some (int k + 1) \<longrightarrow> r = rs ! (fin ! k)"
  proof (intro allI impI ballI)
    fix k r assume k: "k < length fin" and r: "r \<in> set rs" and p: "POSITION r = Some (int k + 1)"
    from r obtain j where j: "j < length rs1" "r = rs ! j"
      using len by (auto simp: in_set_conv_nth)
    have "j = fin ! k" using at_rank [OF j(1) k] p j(2) by simp
    then show "r = rs ! (fin ! k)" using j(2) by simp
  qed
  show "\<forall>r \<in> set rs. \<forall>r' \<in> set rs. \<forall>a b t t'.
           POSITION r = Some a \<and> POSITION r' = Some b \<and> a \<le> b \<and>
           TIME_MIN r = Some t \<and> TIME_MIN r' = Some t' \<longrightarrow> t \<le> t'"
  proof (intro ballI allI impI)
    fix r r' a b t t'
    assume r: "r \<in> set rs" and r': "r' \<in> set rs"
      and h: "POSITION r = Some a \<and> POSITION r' = Some b \<and> a \<le> b \<and>
              TIME_MIN r = Some t \<and> TIME_MIN r' = Some t'"
    from r obtain i where i: "i < length rs1" "r = rs ! i"
      using len by (auto simp: in_set_conv_nth)
    from r' obtain j where j: "j < length rs1" "r' = rs ! j"
      using len by (auto simp: in_set_conv_nth)
    have "i \<in> set fin" using pos [OF i(1)] h i(2) by simp
    then obtain k where k: "k < length fin" "fin ! k = i" by (auto simp: in_set_conv_nth)
    have "j \<in> set fin" using pos [OF j(1)] h j(2) by simp
    then obtain k' where k': "k' < length fin" "fin ! k' = j" by (auto simp: in_set_conv_nth)
    have a: "a = int k + 1" using f(5) [OF k(1)] k(2) i(2) h by simp
    have b: "b = int k' + 1" using f(5) [OF k'(1)] k'(2) j(2) h by simp
    have "k \<le> k'" using a b h by simp
    then have "TIME_MIN (rs1 ! (fin ! k)) \<le> TIME_MIN (rs1 ! (fin ! k'))"
      using k'(1) by (rule f(7))
    then have "TIME_MIN (rs ! i) \<le> TIME_MIN (rs ! j)"
      using k(2) k'(2) same [OF i(1)] same [OF j(1)] by simp
    then have "Some t \<le> Some t'" using h i(2) j(2) by simp
    then show "t \<le> t'" by simp
  qed
qed

lemma start_race_nonempty:
  fixes c :: db and aid :: int and name :: string and fee p1 p2 p3 :: real
  assumes "cars \<noteq> []" and "run_race d p cars g = Inr ((rs, fin), g')"
  defines "rid \<equiv> snd (create_race c aid (if name = [] then ''Rally'' else name) d fee p1 p2 p3)"
  shows "fst (start_race name d fee p1 p2 p3 p cars aid g c) = Inr rs"
    and "snd (snd (start_race name d fee p1 p2 p3 p cars aid g c)) = g'"
    and "TRANSACTIONS (fst (snd (start_race name d fee p1 p2 p3 p cars aid g c))) =
           TRANSACTIONS c @ entry_fee_transactions (participating_team_ids cars) rid fee name
             @ prize_transactions [p1, p2, p3] rs fin rid name"
    and "RACE_RESULTS (fst (snd (start_race name d fee p1 p2 p3 p cars aid g c))) =
           RACE_RESULTS c @ map (result_row rid) rs"
proof -
  obtain c1 where cr: "create_race c aid (if name = [] then ''Rally'' else name) d fee p1 p2 p3 = (c1, rid)"
    unfolding rid_def by (cases "create_race c aid (if name = [] then ''Rally'' else name) d fee p1 p2 p3") simp
  have c1: "TRANSACTIONS c1 = TRANSACTIONS c" "RACE_RESULTS c1 = RACE_RESULTS c"
    using cr by (auto simp: create_race_def Let_def)
  let ?c4 = "insert_results_loop rid rs
               (record_all (prize_transactions [p1, p2, p3] rs fin rid name)
                  (record_all (entry_fee_transactions (participating_team_ids cars) rid fee name) c1))"
  have sr: "start_race name d fee p1 p2 p3 p cars aid g c = (Inr rs, ?c4, g')"
    using assms(1,2) cr
    by (simp add: start_race_def Let_def entry_fee_loop_record_all prize_loop_record_all)
  show "fst (start_race name d fee p1 p2 p3 p cars aid g c) = Inr rs"
    and "snd (snd (start_race name d fee p1 p2 p3 p cars aid g c)) = g'"
    by (simp_all add: sr)
  show "TRANSACTIONS (fst (snd (start_race name d fee p1 p2 p3 p cars aid g c))) =
           TRANSACTIONS c @ entry_fee_transactions (participating_team_ids cars) rid fee name
             @ prize_transactions [p1, p2, p3] rs fin rid name"
    by (simp add: sr insert_results_loop_eq record_all_fields c1)
  show "RACE_RESULTS (fst (snd (start_race name d fee p1 p2 p3 p cars aid g c))) =
           RACE_RESULTS c @ map (result_row rid) rs"
    by (simp add: sr insert_results_loop_eq record_all_fields c1)
qed

section \<open>The claims about the ledger and the settlement\<close>

text \<open>
  C9. A call of \<open>record_transaction\<close> for team \<open>t\<close> and amount \<open>a\<close> appends exactly one
  ledger row with that amount and changes, in every team row with identifier \<open>t\<close>, the
  budget to the old budget (a null budget counting as 0) plus \<open>a\<close>; every other team
  row, every other field of the changed rows, and the races and race results stay as
  they are. After any sequence of recorded transactions the ledger has grown by exactly
  these rows and the budget of every team row is its starting budget (null counting as
  0) plus the sum of the amounts of its transactions.
\<close>

theorem record_transaction_budget:
  "TRANSACTIONS (record_transaction c t r a reason cur) =
     TRANSACTIONS c @ [\<lparr>X_TEAM_ID = t, X_RACE_ID = r, X_AMOUNT = a,
                        X_CURRENCY = cur, X_REASON = reason\<rparr>] \<and>
   RACES (record_transaction c t r a reason cur) = RACES c \<and>
   RACE_RESULTS (record_transaction c t r a reason cur) = RACE_RESULTS c \<and>
   length (TEAMS (record_transaction c t r a reason cur)) = length (TEAMS c) \<and>
   (\<forall>i < length (TEAMS c).
      TEAMS (record_transaction c t r a reason cur) ! i =
        (if T_TEAM_ID (TEAMS c ! i) = t
         then (TEAMS c ! i)\<lparr>T_BUDGET := Some (coalesce (T_BUDGET (TEAMS c ! i)) 0 + a)\<rparr>
         else TEAMS c ! i)) \<and>
   TRANSACTIONS (record_all xs c) = TRANSACTIONS c @ xs \<and>
   RACES (record_all xs c) = RACES c \<and>
   RACE_RESULTS (record_all xs c) = RACE_RESULTS c \<and>
   length (TEAMS (record_all xs c)) = length (TEAMS c) \<and>
   (\<forall>i < length (TEAMS c).
      T_TEAM_ID (TEAMS (record_all xs c) ! i) = T_TEAM_ID (TEAMS c ! i) \<and>
      T_TEAM_NAME (TEAMS (record_all xs c) ! i) = T_TEAM_NAME (TEAMS c ! i) \<and>
      T_MEMBERS (TEAMS (record_all xs c) ! i) = T_MEMBERS (TEAMS c ! i) \<and>
      coalesce (T_BUDGET (TEAMS (record_all xs c) ! i)) 0 =
        coalesce (T_BUDGET (TEAMS c ! i)) 0 + team_total (T_TEAM_ID (TEAMS c ! i)) xs)"
  using record_transaction_fields [of c t r a reason cur]
    record_transaction_team [of _ c t r a reason cur]
    record_all_fields [of xs c] record_all_team [of _ c xs]
  by simp

theorem record_transaction_budget_witness:
  "(1::nat) < length (TEAMS example_db) \<and>
   TEAMS (record_transaction example_db 2 None (- 1000) ''Entry fee for Rally'' ''USD'') ! 1 =
     \<lparr>T_TEAM_ID = 2, T_TEAM_NAME = ''Thunder Racing'', T_MEMBERS = ''Carol,Dan'',
      T_BUDGET = Some (- 1000)\<rparr> \<and>
   TEAMS (record_transaction example_db 2 None (- 1000) ''Entry fee for Rally'' ''USD'') ! 0 =
     TEAMS example_db ! 0"
proof -
  have l: "length (TEAMS example_db) = 2" by (simp add: example_db_def)
  have "\<forall>i < 2. TEAMS (record_transaction example_db 2 None (- 1000) ''Entry fee for Rally'' ''USD'') ! i =
        (if T_TEAM_ID (TEAMS example_db ! i) = 2
         then (TEAMS example_db ! i)\<lparr>T_BUDGET := Some (coalesce (T_BUDGET (TEAMS example_db ! i)) 0 + (- 1000))\<rparr>
         else TEAMS example_db ! i)"
    using record_transaction_budget [of example_db 2 None "- 1000" "''Entry fee for Rally''" "''USD''" "[]"]
    unfolding l by blast
  then have
    "TEAMS (record_transaction example_db 2 None (- 1000) ''Entry fee for Rally'' ''USD'') ! 1 =
        (if T_TEAM_ID (TEAMS example_db ! 1) = 2
         then (TEAMS example_db ! 1)\<lparr>T_BUDGET := Some (coalesce (T_BUDGET (TEAMS example_db ! 1)) 0 + (- 1000))\<rparr>
         else TEAMS example_db ! 1)"
    "TEAMS (record_transaction example_db 2 None (- 1000) ''Entry fee for Rally'' ''USD'') ! 0 =
        (if T_TEAM_ID (TEAMS example_db ! 0) = 2
         then (TEAMS example_db ! 0)\<lparr>T_BUDGET := Some (coalesce (T_BUDGET (TEAMS example_db ! 0)) 0 + (- 1000))\<rparr>
         else TEAMS example_db ! 0)"
    by simp_all
  then show ?thesis
    by (simp add: example_db_def coalesce_def)
qed

text \<open>
  C8. With an empty roster the script stops at the guard: it reports that there are no
  cars and leaves the store (races, ledger, budgets, race results) and the random source
  exactly as they were.
\<close>

theorem empty_roster_aborts:
  "start_race name d fee p1 p2 p3 p [] aid g c = (Inl NoCars, c, g)"
  by (simp add: start_race_def)

text \<open>
  C4. For a non-empty roster the rows the settlement appends to the ledger are first the
  entry fees, then the prizes. The entry fees are one row per distinct team of the
  roster, in ascending order of the team identifier, each with the amount
  \<open>- entry_fee\<close>, the identifier of the new race and the race name in its reason; their
  number is the number of distinct teams and their sum is \<open>- entry_fee\<close> times that
  number. The rows after them are prize credits with positive amounts.
\<close>

theorem entry_fee_once_per_team:
  fixes c :: db and aid :: int and name :: string and fee p1 p2 p3 :: real
  assumes "cars \<noteq> []"
  shows "let rid = snd (create_race c aid (if name = [] then ''Rally'' else name) d fee p1 p2 p3);
             teams = sorted_list_of_set (C_TEAM_ID ` set cars);
             fees = entry_fee_transactions teams rid fee name;
             c' = fst (snd (start_race name d fee p1 p2 p3 p cars aid g c))
         in participating_team_ids cars = teams \<and>
            map X_TEAM_ID fees = teams \<and>
            (\<forall>x \<in> set fees. X_AMOUNT x = - fee \<and> X_RACE_ID x = Some rid \<and>
                              X_CURRENCY x = ''USD'' \<and> X_REASON x = ''Entry fee for '' @ name) \<and>
            length fees = card (C_TEAM_ID ` set cars) \<and>
            sum_list (map X_AMOUNT fees) = - (fee * real (card (C_TEAM_ID ` set cars))) \<and>
            (\<exists>prizes. TRANSACTIONS c' = TRANSACTIONS c @ fees @ prizes \<and>
                       (\<forall>x \<in> set prizes. 0 < X_AMOUNT x))"
proof -
  define rid where "rid = snd (create_race c aid (if name = [] then ''Rally'' else name) d fee p1 p2 p3)"
  define teams where "teams = sorted_list_of_set (C_TEAM_ID ` set cars)"
  define fees where "fees = entry_fee_transactions teams rid fee name"
  define c' where "c' = fst (snd (start_race name d fee p1 p2 p3 p cars aid g c))"
  have pt: "participating_team_ids cars = teams"
    using participating_team_ids_props [of cars] by (simp add: teams_def)
  have lt: "length teams = card (C_TEAM_ID ` set cars)"
    using participating_team_ids_props [of cars] pt by simp
  have ids: "map X_TEAM_ID fees = teams"
    by (simp add: fees_def entry_fee_transactions_def comp_def)
  have rows: "\<forall>x \<in> set fees. X_AMOUNT x = - fee \<and> X_RACE_ID x = Some rid \<and>
                X_CURRENCY x = ''USD'' \<and> X_REASON x = ''Entry fee for '' @ name"
    by (auto simp: fees_def entry_fee_transactions_def)
  have len: "length fees = card (C_TEAM_ID ` set cars)"
    using lt by (simp add: fees_def entry_fee_transactions_def)
  have total: "sum_list (map X_AMOUNT fees) = - (fee * real (card (C_TEAM_ID ` set cars)))"
    unfolding fees_def entry_fee_total lt by simp
  obtain rs1 g1 where
    run: "run_race d p cars g =
            Inr ((assign_positions (sort_key (\<lambda>i. TIME_MIN (rs1 ! i)) (finisher_indices rs1)) 1 rs1,
                  sort_key (\<lambda>i. TIME_MIN (rs1 ! i)) (finisher_indices rs1)), g1)"
    using run_race_ok [OF assms, of d p g] by blast
  let ?prizes = "prize_transactions [p1, p2, p3]
                   (assign_positions (sort_key (\<lambda>i. TIME_MIN (rs1 ! i)) (finisher_indices rs1)) 1 rs1)
                   (sort_key (\<lambda>i. TIME_MIN (rs1 ! i)) (finisher_indices rs1)) rid name"
  have led: "TRANSACTIONS c' = TRANSACTIONS c @ fees @ ?prizes"
    unfolding c'_def fees_def rid_def
    using start_race_nonempty(3) [OF assms run, where c = c and aid = aid and name = name
        and fee = fee and ?p1.0 = p1 and ?p2.0 = p2 and ?p3.0 = p3] pt by simp
  have "\<forall>x \<in> set ?prizes. 0 < X_AMOUNT x"
    by (auto simp: prize_transactions_def prize_ranks_def)
  with led have ex: "\<exists>prizes. TRANSACTIONS c' = TRANSACTIONS c @ fees @ prizes \<and>
                       (\<forall>x \<in> set prizes. 0 < X_AMOUNT x)"
    by blast
  show ?thesis
    unfolding Let_def
    using pt ids rows len total ex
    unfolding rid_def teams_def fees_def c'_def by simp
qed

theorem entry_fee_once_per_team_witness:
  "example_cars \<noteq> [] \<and>
   participating_team_ids example_cars = sorted_list_of_set (C_TEAM_ID ` set example_cars) \<and>
   participating_team_ids (example_cars @ example_cars) = [1, 2]"
proof -
  have ne: "example_cars \<noteq> []" by (simp add: example_cars_def)
  have "participating_team_ids example_cars = sorted_list_of_set (C_TEAM_ID ` set example_cars)"
    using entry_fee_once_per_team [OF ne, of example_db 1 "''Rally''" 100 1000 5000 3000 1000
        "''Fast asphalt''" "\<lambda>_. 1 / 2"]
    unfolding Let_def by blast
  moreover have "participating_team_ids (example_cars @ example_cars) = [1, 2]"
    by (simp add: participating_team_ids_def example_cars_def)
  ultimately show ?thesis using ne by simp
qed

text \<open>
  C5. For a non-empty roster the prize credits the settlement appends to the ledger are
  exactly those of the ranks 1 to min(3, number of finishers) whose prize is positive,
  in rank order: the credit of rank \<open>idx + 1\<close> has the configured amount of that rank
  and goes to the team of the finisher whose position is \<open>idx + 1\<close>, and that finisher
  is the only result with this position. The credits sum to the configured prizes of
  these ranks, and there are never more than three of them.
\<close>

theorem prizes_for_top_three:
  fixes c :: db and aid :: int and name :: string and fee p1 p2 p3 :: real
  assumes "cars \<noteq> []"
  shows "case run_race d p cars g of
           Inl e \<Rightarrow> False
         | Inr ((rs, fin), g') \<Rightarrow>
             let rid = snd (create_race c aid (if name = [] then ''Rally'' else name) d fee p1 p2 p3);
                 prizes = [p1, p2, p3];
                 n = length (filter (\<lambda>r. \<not> DNF r) rs);
                 ranks = filter (\<lambda>idx. prizes ! idx > 0) [0..<min 3 n];
                 credits = prize_transactions prizes rs fin rid name;
                 c' = fst (snd (start_race name d fee p1 p2 p3 p cars aid g c))
             in TRANSACTIONS c' =
                  TRANSACTIONS c @ entry_fee_transactions (participating_team_ids cars) rid fee name
                    @ credits \<and>
                length credits = length ranks \<and>
                (\<forall>j < length ranks.
                   X_AMOUNT (credits ! j) = prizes ! (ranks ! j) \<and>
                   0 < X_AMOUNT (credits ! j) \<and>
                   X_RACE_ID (credits ! j) = Some rid \<and>
                   X_REASON (credits ! j) =
                     ''Prize for position '' @ str_nat (ranks ! j + 1) @ '' in '' @ name \<and>
                   ranks ! j < min 3 n \<and>
                   (\<exists>r \<in> set rs. POSITION r = Some (int (ranks ! j) + 1) \<and> \<not> DNF r \<and>
                                   X_TEAM_ID (credits ! j) = TEAM_ID r) \<and>
                   (\<forall>r \<in> set rs. POSITION r = Some (int (ranks ! j) + 1) \<longrightarrow>
                                   TEAM_ID r = X_TEAM_ID (credits ! j))) \<and>
                sum_list (map X_AMOUNT credits) = sum_list (map ((!) prizes) ranks) \<and>
                length credits \<le> 3"
proof -
  obtain rs1 g1 where
    run: "run_race d p cars g =
            Inr ((assign_positions (sort_key (\<lambda>i. TIME_MIN (rs1 ! i)) (finisher_indices rs1)) 1 rs1,
                  sort_key (\<lambda>i. TIME_MIN (rs1 ! i)) (finisher_indices rs1)), g1)"
    and ok: "\<forall>r \<in> set rs1. unranked_ok r"
    using run_race_ok [OF assms, of d p g] by blast
  define fin where "fin = sort_key (\<lambda>i. TIME_MIN (rs1 ! i)) (finisher_indices rs1)"
  define rs where "rs = assign_positions fin 1 rs1"
  define rid where "rid = snd (create_race c aid (if name = [] then ''Rally'' else name) d fee p1 p2 p3)"
  define prizes where "prizes = [p1, p2, p3]"
  define n where "n = length (filter (\<lambda>r. \<not> DNF r) rs)"
  define ranks where "ranks = filter (\<lambda>idx. prizes ! idx > 0) [0..<min 3 n]"
  define credits where "credits = prize_transactions prizes rs fin rid name"
  define c' where "c' = fst (snd (start_race name d fee p1 p2 p3 p cars aid g c))"
  note run' = run [folded fin_def, folded rs_def]
  note fi = ranked_index_facts [OF ok, folded fin_def, folded rs_def]
  note fr = ranked_row_facts [OF ok, folded fin_def, folded rs_def, folded n_def]
  have lfin: "length fin = n" by (rule fr(2))
  have pr: "prize_ranks prizes (length fin) = ranks"
    by (simp add: prize_ranks_def ranks_def lfin)
  have cr: "credits =
      map (\<lambda>idx. \<lparr>X_TEAM_ID = TEAM_ID (rs ! (fin ! idx)), X_RACE_ID = Some rid,
                   X_AMOUNT = prizes ! idx, X_CURRENCY = ''USD'',
                   X_REASON = ''Prize for position '' @ str_nat (idx + 1) @ '' in '' @ name\<rparr>) ranks"
    by (simp add: credits_def prize_transactions_def pr)
  have led: "TRANSACTIONS c' =
      TRANSACTIONS c @ entry_fee_transactions (participating_team_ids cars) rid fee name @ credits"
    unfolding c'_def credits_def rid_def prizes_def
    by (rule start_race_nonempty(3) [OF assms run'])
  have len: "length credits = length ranks" by (simp add: cr)
  have rk: "ranks ! j < min 3 n \<and> 0 < prizes ! (ranks ! j)" if "j < length ranks" for j
  proof -
    have "ranks ! j \<in> set ranks" using that by simp
    then show ?thesis by (simp add: ranks_def)
  qed
  have each: "X_AMOUNT (credits ! j) = prizes ! (ranks ! j) \<and>
       0 < X_AMOUNT (credits ! j) \<and>
       X_RACE_ID (credits ! j) = Some rid \<and>
       X_REASON (credits ! j) = ''Prize for position '' @ str_nat (ranks ! j + 1) @ '' in '' @ name \<and>
       ranks ! j < min 3 n \<and>
       (\<exists>r \<in> set rs. POSITION r = Some (int (ranks ! j) + 1) \<and> \<not> DNF r \<and>
                       X_TEAM_ID (credits ! j) = TEAM_ID r) \<and>
       (\<forall>r \<in> set rs. POSITION r = Some (int (ranks ! j) + 1) \<longrightarrow>
                       TEAM_ID r = X_TEAM_ID (credits ! j))"
    if j: "j < length ranks" for j
  proof -
    let ?k = "ranks ! j"
    have k: "?k < length fin" using rk [OF j] lfin by simp
    have "fin ! ?k \<in> set fin" using k by simp
    then have b: "fin ! ?k < length rs" using fi(3) fi(1) by simp
    then have m: "rs ! (fin ! ?k) \<in> set rs" by simp
    have p: "POSITION (rs ! (fin ! ?k)) = Some (int ?k + 1)" using k by (rule fi(5))
    have nd: "\<not> DNF (rs ! (fin ! ?k))" using fr(1) m p by auto
    have team: "X_TEAM_ID (credits ! j) = TEAM_ID (rs ! (fin ! ?k))"
      using j by (simp add: cr)
    have ex: "\<exists>r \<in> set rs. POSITION r = Some (int ?k + 1) \<and> \<not> DNF r \<and>
                X_TEAM_ID (credits ! j) = TEAM_ID r"
      using m p nd team by blast
    have un: "\<forall>r \<in> set rs. POSITION r = Some (int ?k + 1) \<longrightarrow> TEAM_ID r = X_TEAM_ID (credits ! j)"
      using fr(6) k team by auto
    show ?thesis
      using j rk [OF j] ex un by (simp add: cr)
  qed
  have total: "sum_list (map X_AMOUNT credits) = sum_list (map ((!) prizes) ranks)"
    by (simp add: cr comp_def)
  have "length ranks \<le> length [0..<min 3 n]"
    unfolding ranks_def by (rule length_filter_le)
  then have three: "length credits \<le> 3" using len by simp
  have body: "TRANSACTIONS c' =
        TRANSACTIONS c @ entry_fee_transactions (participating_team_ids cars) rid fee name @ credits \<and>
      length credits = length ranks \<and>
      (\<forall>j < length ranks.
         X_AMOUNT (credits ! j) = prizes ! (ranks ! j) \<and>
         0 < X_AMOUNT (credits ! j) \<and>
         X_RACE_ID (credits ! j) = Some rid \<and>
         X_REASON (credits ! j) = ''Prize for position '' @ str_nat (ranks ! j + 1) @ '' in '' @ name \<and>
         ranks ! j < min 3 n \<and>
         (\<exists>r \<in> set rs. POSITION r = Some (int (ranks ! j) + 1) \<and> \<not> DNF r \<and>
                         X_TEAM_ID (credits ! j) = TEAM_ID r) \<and>
         (\<forall>r \<in> set rs. POSITION r = Some (int (ranks ! j) + 1) \<longrightarrow>
                         TEAM_ID r = X_TEAM_ID (credits ! j))) \<and>
      sum_list (map X_AMOUNT credits) = sum_list (map ((!) prizes) ranks) \<and>
      length credits \<le> 3"
    using led len each total three by blast
  show ?thesis
    unfolding run' sum.case prod.case Let_def
    using body unfolding credits_def ranks_def n_def prizes_def rid_def c'_def .
qed

text \<open>
  C2. For a non-empty roster the settlement completes, with at least one finisher, and
  in its results a position is present exactly when the car is not DNF, a time is
  present exactly when the car is not DNF, the positions of the finishers are without
  duplicates and are exactly 1 to the number of finishers, and a finisher with a
  position not larger than another's has a time not larger than the other's. The rows
  written to the race results are these results, one row per car in roster order, with
  the status FINISHED exactly for the cars that are not DNF.
\<close>

theorem settled_positions:
  fixes c :: db and aid :: int and name :: string and fee p1 p2 p3 :: real
  assumes "cars \<noteq> []"
  shows "case fst (start_race name d fee p1 p2 p3 p cars aid g c) of
           Inl e \<Rightarrow> False
         | Inr rs \<Rightarrow>
             let n = length (filter (\<lambda>r. \<not> DNF r) rs);
                 rid = snd (create_race c aid (if name = [] then ''Rally'' else name) d fee p1 p2 p3);
                 c' = fst (snd (start_race name d fee p1 p2 p3 p cars aid g c))
             in length rs = length cars \<and> 1 \<le> n \<and>
                (\<forall>r \<in> set rs. (POSITION r \<noteq> None \<longleftrightarrow> \<not> DNF r) \<and>
                                (TIME_MIN r \<noteq> None \<longleftrightarrow> \<not> DNF r)) \<and>
                distinct (map POSITION (filter (\<lambda>r. \<not> DNF r) rs)) \<and>
                set (map POSITION (filter (\<lambda>r. \<not> DNF r) rs)) = Some ` {1..int n} \<and>
                (\<forall>r \<in> set rs. \<forall>r' \<in> set rs. \<forall>a b t t'.
                   POSITION r = Some a \<and> POSITION r' = Some b \<and> a \<le> b \<and>
                   TIME_MIN r = Some t \<and> TIME_MIN r' = Some t' \<longrightarrow> t \<le> t') \<and>
                RACE_RESULTS c' = RACE_RESULTS c @ map (result_row rid) rs \<and>
                (\<forall>r \<in> set rs.
                   RR_POSITION (result_row rid r) = POSITION r \<and>
                   RR_FINISH_TIME_MINUTES (result_row rid r) = TIME_MIN r \<and>
                   (RR_STATUS (result_row rid r) = ''FINISHED'' \<longleftrightarrow> \<not> DNF r) \<and>
                   (RR_STATUS (result_row rid r) = ''DNF'' \<longleftrightarrow> DNF r))"
proof -
  obtain rs1 g1 where
    run: "run_race d p cars g =
            Inr ((assign_positions (sort_key (\<lambda>i. TIME_MIN (rs1 ! i)) (finisher_indices rs1)) 1 rs1,
                  sort_key (\<lambda>i. TIME_MIN (rs1 ! i)) (finisher_indices rs1)), g1)"
    and ok: "\<forall>r \<in> set rs1. unranked_ok r"
    and len1: "length rs1 = length cars"
    and some: "\<exists>r \<in> set rs1. \<not> DNF r"
    using run_race_ok [OF assms, of d p g] by blast
  define fin where "fin = sort_key (\<lambda>i. TIME_MIN (rs1 ! i)) (finisher_indices rs1)"
  define rs where "rs = assign_positions fin 1 rs1"
  define n where "n = length (filter (\<lambda>r. \<not> DNF r) rs)"
  define rid where "rid = snd (create_race c aid (if name = [] then ''Rally'' else name) d fee p1 p2 p3)"
  define c' where "c' = fst (snd (start_race name d fee p1 p2 p3 p cars aid g c))"
  note run' = run [folded fin_def, folded rs_def]
  note fi = ranked_index_facts [OF ok, folded fin_def, folded rs_def]
  note fr = ranked_row_facts [OF ok, folded fin_def, folded rs_def, folded n_def]
  have out: "fst (start_race name d fee p1 p2 p3 p cars aid g c) = Inr rs"
    by (rule start_race_nonempty(1) [OF assms run'])
  have len: "length rs = length cars" using fi(1) len1 by simp
  from some obtain j where "j < length rs1" "\<not> DNF (rs1 ! j)"
    by (auto simp: in_set_conv_nth)
  then have "j \<in> set fin" using fi(3) by simp
  then have "fin \<noteq> []" by auto
  then have n1: "1 \<le> n" using fr(2) by (cases fin) auto
  have rr: "RACE_RESULTS c' = RACE_RESULTS c @ map (result_row rid) rs"
    unfolding c'_def rid_def by (rule start_race_nonempty(4) [OF assms run'])
  have rows: "\<forall>r \<in> set rs.
       RR_POSITION (result_row rid r) = POSITION r \<and>
       RR_FINISH_TIME_MINUTES (result_row rid r) = TIME_MIN r \<and>
       (RR_STATUS (result_row rid r) = ''FINISHED'' \<longleftrightarrow> \<not> DNF r) \<and>
       (RR_STATUS (result_row rid r) = ''DNF'' \<longleftrightarrow> DNF r)"
    by (simp add: result_row_def)
  have body: "length rs = length cars \<and> 1 \<le> n \<and>
      (\<forall>r \<in> set rs. (POSITION r \<noteq> None \<longleftrightarrow> \<not> DNF r) \<and> (TIME_MIN r \<noteq> None \<longleftrightarrow> \<not> DNF r)) \<and>
      distinct (map POSITION (filter (\<lambda>r. \<not> DNF r) rs)) \<and>
      set (map POSITION (filter (\<lambda>r. \<not> DNF r) rs)) = Some ` {1..int n} \<and>
      (\<forall>r \<in> set rs. \<forall>r' \<in> set rs. \<forall>a b t t'.
         POSITION r = Some a \<and> POSITION r' = Some b \<and> a \<le> b \<and>
         TIME_MIN r = Some t \<and> TIME_MIN r' = Some t' \<longrightarrow> t \<le> t') \<and>
      RACE_RESULTS c' = RACE_RESULTS c @ map (result_row rid) rs \<and>
      (\<forall>r \<in> set rs.
         RR_POSITION (result_row rid r) = POSITION r \<and>
         RR_FINISH_TIME_MINUTES (result_row rid r) = TIME_MIN r \<and>
         (RR_STATUS (result_row rid r) = ''FINISHED'' \<longleftrightarrow> \<not> DNF r) \<and>
         (RR_STATUS (result_row rid r) = ''DNF'' \<longleftrightarrow> DNF r))"
    using len n1 fr(1) fr(3) fr(4) fr(5) rr rows by blast
  show ?thesis
    unfolding out sum.case Let_def
    using body unfolding n_def rid_def c'_def .
qed

lemma simulate_time_minutes_rng:
  "\<exists>m. snd (simulate_time_minutes tsp a h rel d p g) = (\<lambda>k. g (k + m))"
proof (cases "snd (fst (simulate_time_minutes tsp a h rel d p g))")
  case True
  then have "snd (simulate_time_minutes tsp a h rel d p g) =
      (\<lambda>k. g (k + (length (segments_of d p) + 1)))"
    unfolding simulate_time_minutes_unfold Let_def by (auto split: if_splits)
  then show ?thesis by blast
next
  case False
  then have "snd (simulate_time_minutes tsp a h rel d p g) =
      (\<lambda>k. g (k + (length (segments_of d p) + 2)))"
    unfolding simulate_time_minutes_unfold Let_def by (auto split: if_splits)
  then show ?thesis by blast
qed

lemma simulate_all_rng: "\<exists>m. snd (simulate_all d p cars g) = (\<lambda>k. g (k + m))"
proof (induction cars arbitrary: g)
  case Nil
  have "snd (simulate_all d p [] g) = (\<lambda>k. g (k + 0))" by simp
  then show ?case by blast
next
  case (Cons row rows)
  let ?s = "simulate_time_minutes (C_TOP_SPEED_KMH row) (C_ACCELERATION_0_100_S row)
              (C_HANDLING row) (C_RELIABILITY row) d p g"
  obtain m where m: "snd ?s = (\<lambda>k. g (k + m))"
    using simulate_time_minutes_rng by blast
  obtain m' where m': "snd (simulate_all d p rows (snd ?s)) = (\<lambda>k. snd ?s (k + m'))"
    using Cons.IH by blast
  have "snd (simulate_all d p (row # rows) g) = (\<lambda>k. g (k + (m' + m)))"
    unfolding simulate_all_Cons Let_def using m' m by (simp add: add.assoc)
  then show ?case by blast
qed

lemma simulate_all_unit_draws:
  assumes "unit_draws g"
  shows "unit_draws (snd (simulate_all d p cars g))"
proof -
  obtain m where "snd (simulate_all d p cars g) = (\<lambda>k. g (k + m))"
    using simulate_all_rng by blast
  then show ?thesis using assms by (simp add: unit_draws_def)
qed

lemma single_finisher:
  assumes "rs \<noteq> []" and "\<not> DNF (rs ! 0)" and "\<forall>i. 0 < i \<and> i < length rs \<longrightarrow> DNF (rs ! i)"
  shows "finisher_indices rs = [0]"
proof -
  have "0 < length rs" using assms(1) by simp
  then have u: "[0..<length rs] = 0 # [1..<length rs]" by (simp add: upt_conv_Cons)
  have "filter (\<lambda>i. \<not> DNF (rs ! i)) [1..<length rs] = []"
    using assms(3) by (auto simp: filter_empty_conv)
  then show ?thesis
    unfolding finisher_indices_def u using assms(2) by simp
qed

text \<open>
  C1. When the simulation marks every car of a non-empty roster DNF, no car has a
  recorded time, every key of the minimum is infinite, and the rescue block chooses
  the first car of the roster: it alone becomes a finisher, with position 1 and the
  fallback time drawn from the distance over 3 to the distance over 2, while every
  other car stays DNF without time and without position. For an arbitrary list of
  results the chosen index has the least key (the recorded time, or infinity) and is
  the first index whose key is that small, and the block changes the dictionary at this
  index only.
\<close>

theorem all_dnf_rescue:
  fixes c :: db and aid :: int and name :: string and fee p1 p2 p3 :: real
  assumes "cars \<noteq> []" and "list_all DNF (fst (simulate_all d p cars g))"
    and "unit_draws g" and "0 \<le> d"
  shows "min_index (fst (simulate_all d p cars g)) = Inr 0 \<and>
         (\<forall>r \<in> set (fst (simulate_all d p cars g)). TIME_MIN r = None) \<and>
         (case run_race d p cars g of
            Inl e \<Rightarrow> False
          | Inr ((rs, fin), g') \<Rightarrow>
              length rs = length cars \<and> fin = [0] \<and>
              length (filter (\<lambda>r. \<not> DNF r) rs) = 1 \<and>
              \<not> DNF (rs ! 0) \<and> POSITION (rs ! 0) = Some 1 \<and>
              CAR_ID (rs ! 0) = C_CAR_ID (cars ! 0) \<and>
              TIME_MIN (rs ! 0) =
                Some (d / 3 + (d / 2 - d / 3) * snd (simulate_all d p cars g) 0) \<and>
              d / 3 \<le> d / 3 + (d / 2 - d / 3) * snd (simulate_all d p cars g) 0 \<and>
              d / 3 + (d / 2 - d / 3) * snd (simulate_all d p cars g) 0 \<le> d / 2 \<and>
              (\<forall>i. 0 < i \<and> i < length rs \<longrightarrow>
                     DNF (rs ! i) \<and> TIME_MIN (rs ! i) = None \<and> POSITION (rs ! i) = None) \<and>
              fst (start_race name d fee p1 p2 p3 p cars aid g c) = Inr rs) \<and>
         (\<forall>results b. min_index results = Inr b \<longrightarrow>
            b < length results \<and>
            (\<forall>i < length results. \<not> key_less (time_key (results ! i)) (time_key (results ! b))) \<and>
            (\<forall>i < b. key_less (time_key (results ! b)) (time_key (results ! i))) \<and>
            (list_all DNF results \<longrightarrow>
               rescue d results g =
                 Inr (results[b := forced_finish d g (results ! b)],
                      if TIME_MIN (results ! b) = None then (\<lambda>n. g (Suc n)) else g)))"
proof -
  define rs0 where "rs0 = fst (simulate_all d p cars g)"
  define g0 where "g0 = snd (simulate_all d p cars g)"
  define t where "t = d / 3 + (d / 2 - d / 3) * g0 0"
  define x where "x = forced_finish d g0 (rs0 ! 0)"
  define rs1 where "rs1 = rs0[0 := x]"
  define rs where "rs = rs1[0 := (rs1 ! 0)\<lparr>POSITION := Some 1\<rparr>]"
  have sim: "simulate_all d p cars g = (rs0, g0)" by (simp add: rs0_def g0_def)
  have len0: "length rs0 = length cars" unfolding rs0_def by (rule simulate_all_length)
  have ne: "rs0 \<noteq> []" using len0 assms(1) by auto
  have l0: "0 < length rs0" using ne by simp
  have all: "list_all DNF rs0" using assms(2) by (simp add: rs0_def)
  have row0: "(TIME_MIN r = None \<longleftrightarrow> DNF r) \<and> POSITION r = None" if "r \<in> set rs0" for r
    using that unfolding rs0_def by (rule simulate_all_rows)
  have dnf0: "DNF r" if "r \<in> set rs0" for r using all that by (simp add: list_all_iff)
  have none: "\<forall>r \<in> set rs0. TIME_MIN r = None" using row0 dnf0 by blast
  have mi: "min_index rs0 = Inr 0" using ne none by (rule min_index_no_times)
  have t0: "TIME_MIN (rs0 ! 0) = None" using none l0 by simp
  have p0: "POSITION (rs0 ! 0) = None" using row0 [of "rs0 ! 0"] l0 by simp
  have xv: "x = (rs0 ! 0)\<lparr>DNF := False, TIME_MIN := Some t\<rparr>"
    by (simp add: x_def forced_finish_def t0 t_def)
  have resc: "rescue d rs0 g0 = Inr (rs1, \<lambda>n. g0 (Suc n))"
    using rescue_all_dnf [OF mi all, of d g0] t0 by (simp add: rs1_def x_def)
  have len1: "length rs1 = length rs0" by (simp add: rs1_def)
  have r10: "rs1 ! 0 = x" using l0 by (simp add: rs1_def)
  have r1i: "rs1 ! i = rs0 ! i" if "0 < i" for i using that by (simp add: rs1_def)
  have d1: "\<forall>i. 0 < i \<and> i < length rs1 \<longrightarrow> DNF (rs1 ! i)"
    using r1i dnf0 len1 by auto
  have f1: "finisher_indices rs1 = [0]"
    using ne d1 r10 xv len1 by (intro single_finisher) auto
  have sf: "sort_finishers rs1 (finisher_indices rs1) = Inr [0]"
    by (simp add: f1 sort_finishers_def)
  have run: "run_race d p cars g = Inr ((rs, [0]), \<lambda>n. g0 (Suc n))"
    by (simp add: run_race_def sim resc sf rs_def)
  have len: "length rs = length cars" using len0 len1 by (simp add: rs_def)
  have r0: "rs ! 0 = x\<lparr>POSITION := Some 1\<rparr>" using l0 len1 r10 by (simp add: rs_def)
  have ri: "rs ! i = rs0 ! i" if "0 < i" for i using that r1i by (simp add: rs_def)
  have others: "\<forall>i. 0 < i \<and> i < length rs \<longrightarrow>
      DNF (rs ! i) \<and> TIME_MIN (rs ! i) = None \<and> POSITION (rs ! i) = None"
  proof (intro allI impI)
    fix i assume i: "0 < i \<and> i < length rs"
    then have "rs0 ! i \<in> set rs0" using len len0 by simp
    then show "DNF (rs ! i) \<and> TIME_MIN (rs ! i) = None \<and> POSITION (rs ! i) = None"
      using row0 dnf0 ri i by simp
  qed
  have nd: "\<not> DNF (rs ! 0)" by (simp add: r0 xv)
  have rne: "rs \<noteq> []" using len assms(1) by auto
  have "finisher_indices rs = [0]"
    using rne nd others by (intro single_finisher) auto
  then have one: "length (filter (\<lambda>r. \<not> DNF r) rs) = 1"
    by (simp add: finishers_as_indices)
  have car: "CAR_ID (rs ! 0) = C_CAR_ID (cars ! 0)"
  proof -
    have "map CAR_ID rs0 ! 0 = map C_CAR_ID cars ! 0"
      using simulate_all_teams [of d p cars g] by (simp add: rs0_def)
    then have "CAR_ID (rs0 ! 0) = C_CAR_ID (cars ! 0)"
      using l0 len0 by simp
    then show ?thesis by (simp add: r0 xv)
  qed
  have u0: "unit_draws g0" unfolding g0_def using assms(3) by (rule simulate_all_unit_draws)
  then have g00: "0 \<le> g0 0" "g0 0 \<le> 1" by (simp_all add: unit_draws_def less_imp_le)
  have w: "0 \<le> d / 2 - d / 3" using assms(4) by simp
  have lo: "d / 3 \<le> t"
    unfolding t_def using mult_nonneg_nonneg [OF w g00(1)] by simp
  have "(d / 2 - d / 3) * g0 0 \<le> (d / 2 - d / 3) * 1"
    using w g00(2) by (rule mult_left_mono [rotated])
  then have hi: "t \<le> d / 2" unfolding t_def by simp
  have out: "fst (start_race name d fee p1 p2 p3 p cars aid g c) = Inr rs"
    by (rule start_race_nonempty(1) [OF assms(1) run])
  have body: "length rs = length cars \<and> [0] = [0::nat] \<and>
      length (filter (\<lambda>r. \<not> DNF r) rs) = 1 \<and>
      \<not> DNF (rs ! 0) \<and> POSITION (rs ! 0) = Some 1 \<and>
      CAR_ID (rs ! 0) = C_CAR_ID (cars ! 0) \<and>
      TIME_MIN (rs ! 0) = Some t \<and> d / 3 \<le> t \<and> t \<le> d / 2 \<and>
      (\<forall>i. 0 < i \<and> i < length rs \<longrightarrow>
             DNF (rs ! i) \<and> TIME_MIN (rs ! i) = None \<and> POSITION (rs ! i) = None) \<and>
      fst (start_race name d fee p1 p2 p3 p cars aid g c) = Inr rs"
    using len one nd car lo hi others out by (simp add: r0 xv)
  have blk: "\<forall>results b. min_index results = Inr b \<longrightarrow>
            b < length results \<and>
            (\<forall>i < length results. \<not> key_less (time_key (results ! i)) (time_key (results ! b))) \<and>
            (\<forall>i < b. key_less (time_key (results ! b)) (time_key (results ! i))) \<and>
            (list_all DNF results \<longrightarrow>
               rescue d results g =
                 Inr (results[b := forced_finish d g (results ! b)],
                      if TIME_MIN (results ! b) = None then (\<lambda>n. g (Suc n)) else g))"
    using min_index_first_least rescue_all_dnf by blast
  have main: "case run_race d p cars g of
            Inl e \<Rightarrow> False
          | Inr ((rs, fin), g') \<Rightarrow>
              length rs = length cars \<and> fin = [0] \<and>
              length (filter (\<lambda>r. \<not> DNF r) rs) = 1 \<and>
              \<not> DNF (rs ! 0) \<and> POSITION (rs ! 0) = Some 1 \<and>
              CAR_ID (rs ! 0) = C_CAR_ID (cars ! 0) \<and>
              TIME_MIN (rs ! 0) = Some t \<and> d / 3 \<le> t \<and> t \<le> d / 2 \<and>
              (\<forall>i. 0 < i \<and> i < length rs \<longrightarrow>
                     DNF (rs ! i) \<and> TIME_MIN (rs ! i) = None \<and> POSITION (rs ! i) = None) \<and>
              fst (start_race name d fee p1 p2 p3 p cars aid g c) = Inr rs"
    unfolding run sum.case prod.case using body .
  show ?thesis
    using mi none main blk unfolding t_def g0_def rs0_def by blast
qed

section \<open>The example scenario, evaluated\<close>

lemmas example_eval = example_cars_def simulate_all_Cons simulate_time_minutes_unfold Let_def
  segments_of_def handling_scale_of_def accel_scale_of_def segment_speed_of_def
  random_uniform_def random_random_def

lemma example_nonempty: "example_cars \<noteq> []"
  by (simp add: example_cars_def)

lemma example_race_id:
  "snd (create_race example_db 1 (if ''Rally'' = [] then ''Rally'' else ''Rally'')
          100 1000 5000 3000 1000) = 1"
  by (simp add: create_race_def example_db_def)

lemma str_nat_digit: "n < 10 \<Longrightarrow> str_nat n = [''0123456789'' ! n]"
  by (simp add: str_nat.simps)

lemma example_sim_finish:
  "simulate_all 100 ''Fast asphalt'' example_cars (\<lambda>_. 1 / 2) =
     ([\<lparr>CAR_ID = 1, CAR_NAME = ''Car A'', TEAM_ID = 1, TEAM_NAME = ''Falcon Motorsport'',
        TIME_MIN = Some (725000 / 23749), DNF = False, POSITION = None\<rparr>,
       \<lparr>CAR_ID = 2, CAR_NAME = ''Car B'', TEAM_ID = 2, TEAM_NAME = ''Thunder Racing'',
        TIME_MIN = Some (14500000 / 458367), DNF = False, POSITION = None\<rparr>], \<lambda>_. 1 / 2)"
  by (simp add: example_eval)

lemma example_run_finish:
  "run_race 100 ''Fast asphalt'' example_cars (\<lambda>_. 1 / 2) =
     Inr (([\<lparr>CAR_ID = 1, CAR_NAME = ''Car A'', TEAM_ID = 1, TEAM_NAME = ''Falcon Motorsport'',
              TIME_MIN = Some (725000 / 23749), DNF = False, POSITION = Some 1\<rparr>,
            \<lparr>CAR_ID = 2, CAR_NAME = ''Car B'', TEAM_ID = 2, TEAM_NAME = ''Thunder Racing'',
              TIME_MIN = Some (14500000 / 458367), DNF = False, POSITION = Some 2\<rparr>],
           [0, 1]), \<lambda>_. 1 / 2)"
  by (simp add: run_race_def example_sim_finish rescue_def finisher_indices_def sort_finishers_def)

lemma example_sim_dnf:
  "simulate_all 100 ''Fast asphalt'' example_cars (\<lambda>_. 199 / 200) =
     ([\<lparr>CAR_ID = 1, CAR_NAME = ''Car A'', TEAM_ID = 1, TEAM_NAME = ''Falcon Motorsport'',
        TIME_MIN = None, DNF = True, POSITION = None\<rparr>,
       \<lparr>CAR_ID = 2, CAR_NAME = ''Car B'', TEAM_ID = 2, TEAM_NAME = ''Thunder Racing'',
        TIME_MIN = None, DNF = True, POSITION = None\<rparr>], \<lambda>_. 199 / 200)"
  by (simp add: example_eval)

lemma example_run_dnf:
  "run_race 100 ''Fast asphalt'' example_cars (\<lambda>_. 199 / 200) =
     Inr (([\<lparr>CAR_ID = 1, CAR_NAME = ''Car A'', TEAM_ID = 1, TEAM_NAME = ''Falcon Motorsport'',
              TIME_MIN = Some (599 / 12), DNF = False, POSITION = Some 1\<rparr>,
            \<lparr>CAR_ID = 2, CAR_NAME = ''Car B'', TEAM_ID = 2, TEAM_NAME = ''Thunder Racing'',
              TIME_MIN = None, DNF = True, POSITION = None\<rparr>],
           [0]), \<lambda>_. 199 / 200)"
  by (simp add: run_race_def example_sim_dnf rescue_def min_index_def time_key_def
      random_uniform_def random_random_def finisher_indices_def sort_finishers_def)

theorem all_dnf_rescue_witness:
  "example_cars \<noteq> [] \<and>
   list_all DNF (fst (simulate_all 100 ''Fast asphalt'' example_cars (\<lambda>_. 199 / 200))) \<and>
   unit_draws (\<lambda>_. 199 / 200) \<and> (0::real) \<le> 100 \<and>
   min_index (fst (simulate_all 100 ''Fast asphalt'' example_cars (\<lambda>_. 199 / 200))) = Inr 0 \<and>
   fst (start_race ''Rally'' 100 1000 5000 3000 1000 ''Fast asphalt'' example_cars 1
          (\<lambda>_. 199 / 200) example_db) =
     Inr [\<lparr>CAR_ID = 1, CAR_NAME = ''Car A'', TEAM_ID = 1, TEAM_NAME = ''Falcon Motorsport'',
           TIME_MIN = Some (599 / 12), DNF = False, POSITION = Some 1\<rparr>,
          \<lparr>CAR_ID = 2, CAR_NAME = ''Car B'', TEAM_ID = 2, TEAM_NAME = ''Thunder Racing'',
           TIME_MIN = None, DNF = True, POSITION = None\<rparr>]"
proof -
  have h2: "list_all DNF (fst (simulate_all 100 ''Fast asphalt'' example_cars (\<lambda>_. 199 / 200)))"
    by (simp add: example_sim_dnf)
  have h3: "unit_draws (\<lambda>_. 199 / 200)" by (simp add: unit_draws_def)
  have h4: "(0::real) \<le> 100" by simp
  note T = all_dnf_rescue [OF example_nonempty h2 h3 h4, where c = example_db and aid = 1
      and name = "''Rally''" and fee = 1000 and ?p1.0 = 5000 and ?p2.0 = 3000 and ?p3.0 = 1000]
  have m: "min_index (fst (simulate_all 100 ''Fast asphalt'' example_cars (\<lambda>_. 199 / 200))) = Inr 0"
    using T by blast
  have "case run_race 100 ''Fast asphalt'' example_cars (\<lambda>_. 199 / 200) of
          Inl e \<Rightarrow> False
        | Inr ((rs, fin), g') \<Rightarrow>
            fst (start_race ''Rally'' 100 1000 5000 3000 1000 ''Fast asphalt'' example_cars 1
                   (\<lambda>_. 199 / 200) example_db) = Inr rs"
    using T by (auto split: sum.splits)
  then have "fst (start_race ''Rally'' 100 1000 5000 3000 1000 ''Fast asphalt'' example_cars 1
          (\<lambda>_. 199 / 200) example_db) =
     Inr [\<lparr>CAR_ID = 1, CAR_NAME = ''Car A'', TEAM_ID = 1, TEAM_NAME = ''Falcon Motorsport'',
           TIME_MIN = Some (599 / 12), DNF = False, POSITION = Some 1\<rparr>,
          \<lparr>CAR_ID = 2, CAR_NAME = ''Car B'', TEAM_ID = 2, TEAM_NAME = ''Thunder Racing'',
           TIME_MIN = None, DNF = True, POSITION = None\<rparr>]"
    unfolding example_run_dnf sum.case prod.case .
  with example_nonempty h2 h3 h4 m show ?thesis by blast
qed

theorem settled_positions_witness:
  "example_cars \<noteq> [] \<and>
   RACE_RESULTS (fst (snd (start_race ''Rally'' 100 1000 5000 3000 1000 ''Fast asphalt''
                             example_cars 1 (\<lambda>_. 1 / 2) example_db))) =
     [\<lparr>RR_RACE_ID = 1, RR_CAR_ID = 1, RR_TEAM_ID = 1,
       RR_FINISH_TIME_MINUTES = Some (725000 / 23749), RR_STATUS = ''FINISHED'',
       RR_POSITION = Some 1\<rparr>,
      \<lparr>RR_RACE_ID = 1, RR_CAR_ID = 2, RR_TEAM_ID = 2,
       RR_FINISH_TIME_MINUTES = Some (14500000 / 458367), RR_STATUS = ''FINISHED'',
       RR_POSITION = Some 2\<rparr>]"
proof -
  have out: "fst (start_race ''Rally'' 100 1000 5000 3000 1000 ''Fast asphalt''
                   example_cars 1 (\<lambda>_. 1 / 2) example_db) =
     Inr [\<lparr>CAR_ID = 1, CAR_NAME = ''Car A'', TEAM_ID = 1, TEAM_NAME = ''Falcon Motorsport'',
           TIME_MIN = Some (725000 / 23749), DNF = False, POSITION = Some 1\<rparr>,
          \<lparr>CAR_ID = 2, CAR_NAME = ''Car B'', TEAM_ID = 2, TEAM_NAME = ''Thunder Racing'',
           TIME_MIN = Some (14500000 / 458367), DNF = False, POSITION = Some 2\<rparr>]"
    by (rule start_race_nonempty(1) [OF example_nonempty example_run_finish])
  note T = settled_positions [OF example_nonempty, where c = example_db and aid = 1
      and name = "''Rally''" and fee = 1000 and ?p1.0 = 5000 and ?p2.0 = 3000 and ?p3.0 = 1000
      and d = 100 and p = "''Fast asphalt''" and g = "\<lambda>_. 1 / 2"]
  have "RACE_RESULTS (fst (snd (start_race ''Rally'' 100 1000 5000 3000 1000 ''Fast asphalt''
                             example_cars 1 (\<lambda>_. 1 / 2) example_db))) =
        RACE_RESULTS example_db @ map (result_row 1)
          [\<lparr>CAR_ID = 1, CAR_NAME = ''Car A'', TEAM_ID = 1, TEAM_NAME = ''Falcon Motorsport'',
            TIME_MIN = Some (725000 / 23749), DNF = False, POSITION = Some 1\<rparr>,
           \<lparr>CAR_ID = 2, CAR_NAME = ''Car B'', TEAM_ID = 2, TEAM_NAME = ''Thunder Racing'',
            TIME_MIN = Some (14500000 / 458367), DNF = False, POSITION = Some 2\<rparr>]"
    using T unfolding out sum.case Let_def example_race_id by blast
  then show ?thesis
    using example_nonempty by (simp add: result_row_def example_db_def)
qed

theorem prizes_for_top_three_witness:
  "example_cars \<noteq> [] \<and>
   TRANSACTIONS (fst (snd (start_race ''Rally'' 100 1000 5000 3000 1000 ''Fast asphalt''
                             example_cars 1 (\<lambda>_. 1 / 2) example_db))) =
     [\<lparr>X_TEAM_ID = 1, X_RACE_ID = Some 1, X_AMOUNT = - 1000, X_CURRENCY = ''USD'',
       X_REASON = ''Entry fee for Rally''\<rparr>,
      \<lparr>X_TEAM_ID = 2, X_RACE_ID = Some 1, X_AMOUNT = - 1000, X_CURRENCY = ''USD'',
       X_REASON = ''Entry fee for Rally''\<rparr>,
      \<lparr>X_TEAM_ID = 1, X_RACE_ID = Some 1, X_AMOUNT = 5000, X_CURRENCY = ''USD'',
       X_REASON = ''Prize for position 1 in Rally''\<rparr>,
      \<lparr>X_TEAM_ID = 2, X_RACE_ID = Some 1, X_AMOUNT = 3000, X_CURRENCY = ''USD'',
       X_REASON = ''Prize for position 2 in Rally''\<rparr>]"
proof -
  note T = prizes_for_top_three [OF example_nonempty, where c = example_db and aid = 1
      and name = "''Rally''" and fee = 1000 and ?p1.0 = 5000 and ?p2.0 = 3000 and ?p3.0 = 1000
      and d = 100 and p = "''Fast asphalt''" and g = "\<lambda>_. 1 / 2"]
  have "TRANSACTIONS (fst (snd (start_race ''Rally'' 100 1000 5000 3000 1000 ''Fast asphalt''
                             example_cars 1 (\<lambda>_. 1 / 2) example_db))) =
        TRANSACTIONS example_db @
        entry_fee_transactions (participating_team_ids example_cars) 1 1000 ''Rally'' @
        prize_transactions [5000, 3000, 1000]
          [\<lparr>CAR_ID = 1, CAR_NAME = ''Car A'', TEAM_ID = 1, TEAM_NAME = ''Falcon Motorsport'',
            TIME_MIN = Some (725000 / 23749), DNF = False, POSITION = Some 1\<rparr>,
           \<lparr>CAR_ID = 2, CAR_NAME = ''Car B'', TEAM_ID = 2, TEAM_NAME = ''Thunder Racing'',
            TIME_MIN = Some (14500000 / 458367), DNF = False, POSITION = Some 2\<rparr>]
          [0, 1] 1 ''Rally''"
    using T unfolding example_run_finish sum.case prod.case Let_def example_race_id by blast
  then show ?thesis
    using example_nonempty
    by (simp add: example_db_def participating_team_ids_def example_cars_def
        entry_fee_transactions_def prize_transactions_def prize_ranks_def str_nat_digit)
qed

section \<open>Properties of binary64 rounding\<close>

lemma rnd_pos_core:
  assumes "0 < x"
  defines "u \<equiv> 2 powr (real_of_int (max \<lfloor>log 2 x\<rfloor> (- 1022)) - 52)"
  shows "\<exists>m. 0 \<le> m \<and> \<bar>real_of_int m * u - x\<bar> \<le> u / 2 \<and>
             rnd_pos x = (if 2 powr 1024 \<le> real_of_int m * u then PInf else Fin (real_of_int m * u))"
proof -
  define q where "q = x / u"
  define n where "n = \<lfloor>q\<rfloor>"
  define m where "m = (if q - real_of_int n < 1 / 2 then n
                       else if 1 / 2 < q - real_of_int n then n + 1
                       else if even n then n else n + 1)"
  have u: "0 < u" by (simp add: u_def)
  have q: "0 < q" using assms(1) u by (simp add: q_def)
  have n0: "0 \<le> n" using q by (simp add: n_def)
  have fl: "real_of_int n \<le> q" "q < real_of_int n + 1"
    unfolding n_def by linarith+
  have m0: "0 \<le> m" using n0 by (simp add: m_def)
  have near: "\<bar>real_of_int m - q\<bar> \<le> 1 / 2"
    using fl by (auto simp: m_def)
  have "\<bar>real_of_int m * u - x\<bar> = \<bar>real_of_int m - q\<bar> * u"
  proof -
    have "x = q * u" using u by (simp add: q_def)
    then have "real_of_int m * u - x = (real_of_int m - q) * u" by (simp add: algebra_simps)
    then show ?thesis using u by (simp add: abs_mult)
  qed
  also have "\<dots> \<le> 1 / 2 * u"
    using near u by (intro mult_right_mono) simp_all
  finally have err: "\<bar>real_of_int m * u - x\<bar> \<le> u / 2" by simp
  have "rnd_pos x = (if 2 powr 1024 \<le> real_of_int m * u then PInf else Fin (real_of_int m * u))"
    using assms(1) unfolding rnd_pos_def Let_def m_def n_def q_def u_def by simp
  with m0 err show ?thesis by blast
qed

lemma two_powr_bounds:
  "(2::real) powr (- 53) \<le> 1 / 10 ^ 15"
  "(2::real) powr (- 1022) \<le> 1 / 10 ^ 9"
  "(10::real) ^ 9 < 2 powr 1023"
proof -
  have a: "(2::real) powr (- 53) = 1 / 2 ^ 53"
    by (simp add: powr_minus_divide)
  show "(2::real) powr (- 53) \<le> 1 / 10 ^ 15" unfolding a by simp
  have "(2::real) powr (- 1022) \<le> 2 powr (- 30)" by (rule powr_mono) simp_all
  also have "\<dots> = 1 / 2 ^ 30" by (simp add: powr_minus_divide)
  also have "\<dots> \<le> 1 / 10 ^ 9" by simp
  finally show "(2::real) powr (- 1022) \<le> 1 / 10 ^ 9" .
  have "(10::real) ^ 9 < 2 ^ 30" by simp
  also have "\<dots> = 2 powr 30" by simp
  also have "\<dots> \<le> 2 powr 1023" by (rule powr_mono) simp_all
  finally show "(10::real) ^ 9 < 2 powr 1023" .
qed

lemma rnd_pos_normal:
  assumes lo: "2 powr (- 1022) \<le> x" and hi: "x < 2 powr 1023"
  shows "\<exists>y. rnd_pos x = Fin y \<and> x * (1 - 2 powr (- 53)) \<le> y \<and> y \<le> x * (1 + 2 powr (- 53))"
proof -
  have x: "0 < x" using lo by (rule less_le_trans [rotated]) simp
  define e where "e = \<lfloor>log 2 x\<rfloor>"
  have "- 1022 \<le> log 2 x" using lo x by (simp add: le_log_iff)
  then have e1: "- 1022 \<le> e" unfolding e_def by (simp add: le_floor_iff)
  then have mx: "max \<lfloor>log 2 x\<rfloor> (- 1022) = e" by (simp add: e_def)
  have "real_of_int e \<le> log 2 x" unfolding e_def by simp
  then have pe: "2 powr real_of_int e \<le> x" using x by (simp add: le_log_iff)
  define u where "u = 2 powr (real_of_int e - 52)"
  have half: "u / 2 = 2 powr real_of_int e * 2 powr (- 53)"
  proof -
    have "u = 2 powr ((real_of_int e - 53) + 1)" by (simp add: u_def)
    also have "\<dots> = 2 powr (real_of_int e - 53) * 2 powr 1" by (simp only: powr_add)
    finally have "u / 2 = 2 powr (real_of_int e + (- 53))" by simp
    also have "\<dots> = 2 powr real_of_int e * 2 powr (- 53)" by (simp only: powr_add)
    finally show ?thesis .
  qed
  have hx: "u / 2 \<le> x * 2 powr (- 53)"
    unfolding half using pe by (intro mult_right_mono) simp_all
  from rnd_pos_core [OF x] obtain m where
    err: "\<bar>real_of_int m * u - x\<bar> \<le> u / 2" and
    r: "rnd_pos x = (if 2 powr 1024 \<le> real_of_int m * u then PInf else Fin (real_of_int m * u))"
    unfolding mx u_def by blast
  define y where "y = real_of_int m * u"
  have e2: "\<bar>y - x\<bar> \<le> x * 2 powr (- 53)"
    using err hx unfolding y_def by linarith
  have d1: "x * (1 - 2 powr (- 53)) = x - x * 2 powr (- 53)"
    and d2: "x * (1 + 2 powr (- 53)) = x + x * 2 powr (- 53)"
    by (simp_all add: algebra_simps)
  have b: "x * (1 - 2 powr (- 53)) \<le> y" "y \<le> x * (1 + 2 powr (- 53))"
    unfolding d1 d2 using e2 by linarith+
  have "x * (1 + 2 powr (- 53)) < 2 powr 1023 * 2"
  proof -
    have "1 + (2::real) powr (- 53) \<le> 2" using two_powr_bounds(1) by simp
    then have "x * (1 + 2 powr (- 53)) \<le> x * 2" using x by (intro mult_left_mono) simp_all
    also have "\<dots> < 2 powr 1023 * 2" using hi by simp
    finally show ?thesis .
  qed
  also have "(2::real) powr 1023 * 2 = 2 powr 1024"
  proof -
    have "(2::real) powr 1024 = 2 powr (1023 + 1)" by simp
    also have "\<dots> = 2 powr 1023 * 2 powr 1" by (simp only: powr_add)
    finally show ?thesis by simp
  qed
  finally have "y < 2 powr 1024" using b(2) by simp
  then have "rnd_pos x = Fin y" using r by (simp add: y_def)
  with b show ?thesis by blast
qed

lemma rnd_pos_subnormal:
  assumes x: "0 < x" and hi: "x < 2 powr (- 1022)"
  shows "\<exists>y. rnd_pos x = Fin y \<and> 0 \<le> y \<and> \<bar>y - x\<bar> \<le> 2 powr (- 1075)"
proof -
  have "log 2 x < - 1022" using hi x by (simp add: log_less_iff)
  then have "\<lfloor>log 2 x\<rfloor> < - 1022" by (simp add: floor_less_iff)
  then have mx: "max \<lfloor>log 2 x\<rfloor> (- 1022) = - 1022" by simp
  define u :: real where "u = 2 powr (- 1074)"
  have uu: "2 powr (real_of_int (max \<lfloor>log 2 x\<rfloor> (- 1022)) - 52) = u"
    unfolding mx u_def by simp
  have half: "u / 2 = 2 powr (- 1075)"
  proof -
    have "u / 2 = 2 powr (- 1074) * 2 powr (- 1)" by (simp add: u_def powr_minus_divide)
    also have "\<dots> = 2 powr (- 1074 + (- 1))" by (simp only: powr_add)
    finally show ?thesis by simp
  qed
  from rnd_pos_core [OF x] obtain m where
    m0: "0 \<le> m" and
    err: "\<bar>real_of_int m * u - x\<bar> \<le> u / 2" and
    r: "rnd_pos x = (if 2 powr 1024 \<le> real_of_int m * u then PInf else Fin (real_of_int m * u))"
    unfolding uu by blast
  define y where "y = real_of_int m * u"
  have y0: "0 \<le> y" using m0 by (simp add: y_def u_def)
  have e: "\<bar>y - x\<bar> \<le> 2 powr (- 1075)" using err half by (simp add: y_def)
  have "y \<le> x + 2 powr (- 1075)" using e by (simp add: abs_le_iff)
  also have "\<dots> < 2 powr (- 1022) + 2 powr (- 1075)" using hi by simp
  also have "\<dots> \<le> 2 powr 0 + 2 powr 0"
    by (intro add_mono powr_mono) simp_all
  also have "\<dots> \<le> 2 powr 1024"
  proof -
    have "(2::real) powr 1 \<le> 2 powr 1024" by (rule powr_mono) simp_all
    then show ?thesis by simp
  qed
  finally have "y < 2 powr 1024" .
  then have "rnd_pos x = Fin y" using r by (simp add: y_def)
  with y0 e show ?thesis by blast
qed

lemma rnd_pos_tiny:
  assumes "0 \<le> x" and "x \<le> 2 powr (- 1075)"
  shows "rnd_pos x = Fin 0"
proof (cases "x = 0")
  case True
  then show ?thesis by (simp add: rnd_pos_def)
next
  case False
  then have x: "0 < x" using assms(1) by simp
  have "(2::real) powr (- 1075) < 2 powr (- 1022)" by (rule powr_less_mono) simp_all
  with assms(2) have hi: "x < 2 powr (- 1022)" by (rule le_less_trans)
  have "log 2 x < - 1022" using hi x by (simp add: log_less_iff)
  then have "\<lfloor>log 2 x\<rfloor> < - 1022" by (simp add: floor_less_iff)
  then have mx: "max \<lfloor>log 2 x\<rfloor> (- 1022) = - 1022" by simp
  define q where "q = x / 2 powr (- 1074)"
  have "(2::real) powr (- 1075) = 2 powr (- 1074) * 2 powr (- 1)"
  proof -
    have "(2::real) powr (- 1075) = 2 powr (- 1074 + (- 1))" by simp
    then show ?thesis by (simp only: powr_add)
  qed
  then have "x \<le> 2 powr (- 1074) * (1 / 2)" using assms(2) by (simp add: powr_minus_divide)
  then have qh: "q \<le> 1 / 2" unfolding q_def by (simp add: pos_divide_le_eq mult.commute)
  have q0: "0 < q" using x by (simp add: q_def)
  have fl: "\<lfloor>q\<rfloor> = 0" using q0 qh by (simp add: floor_eq_iff)
  show ?thesis
    using False qh q0
    unfolding rnd_pos_def Let_def mx by (simp add: q_def [symmetric] fl)
qed

lemma rnd_zero: "rnd 0 = Fin 0"
  by (simp add: rnd_def rnd_pos_def)

lemma rnd_pos_range:
  assumes "0 \<le> x"
  shows "rnd_pos x = PInf \<or> (\<exists>y. rnd_pos x = Fin y \<and> 0 \<le> y)"
proof (cases "x = 0")
  case True
  then show ?thesis by (simp add: rnd_pos_def)
next
  case False
  then have "0 < x" using assms by simp
  define u where "u = 2 powr (real_of_int (max \<lfloor>log 2 x\<rfloor> (- 1022)) - 52)"
  have u: "0 < u" by (simp add: u_def)
  from rnd_pos_core [OF \<open>0 < x\<close>] obtain m where
    m: "0 \<le> m"
    "rnd_pos x = (if 2 powr 1024 \<le> real_of_int m * u then PInf else Fin (real_of_int m * u))"
    unfolding u_def by blast
  have "0 \<le> real_of_int m * u" using m(1) u by simp
  then show ?thesis using m(2) by auto
qed

lemma rnd_rel:
  assumes "1 / 10 ^ 9 \<le> x" and "x \<le> 10 ^ 9"
  shows "\<exists>y. rnd x = Fin y \<and> x * (999 / 1000) \<le> y \<and> y \<le> x * (1001 / 1000)"
proof -
  have x: "0 < x" using assms(1) by (rule less_le_trans [rotated]) simp
  have lo: "2 powr (- 1022) \<le> x" using two_powr_bounds(2) assms(1) by (rule order_trans)
  have hi: "x < 2 powr 1023" using assms(2) two_powr_bounds(3) by (rule le_less_trans)
  from rnd_pos_normal [OF lo hi] obtain y where
    y: "rnd_pos x = Fin y" "x * (1 - 2 powr (- 53)) \<le> y" "y \<le> x * (1 + 2 powr (- 53))"
    by blast
  have e: "(2::real) powr (- 53) \<le> 1 / 1000"
    using two_powr_bounds(1) by (rule order_trans) simp
  have "x * (999 / 1000) \<le> x * (1 - 2 powr (- 53))"
    using x e by (intro mult_left_mono) simp_all
  moreover have "x * (1 + 2 powr (- 53)) \<le> x * (1001 / 1000)"
    using x e by (intro mult_left_mono) simp_all
  ultimately have "x * (999 / 1000) \<le> y \<and> y \<le> x * (1001 / 1000)"
    using y(2,3) by linarith
  moreover have "rnd x = Fin y" using x y(1) by (simp add: rnd_def)
  ultimately show ?thesis by blast
qed

lemma rnd_nonneg:
  assumes "0 \<le> x" and "x \<le> 10 ^ 9"
  shows "\<exists>y. rnd x = Fin y \<and> 0 \<le> y \<and> y \<le> x * (1001 / 1000) + 1 / 10 ^ 9"
proof (cases "1 / 10 ^ 9 \<le> x")
  case True
  from rnd_rel [OF True assms(2)] obtain y where
    "rnd x = Fin y" "x * (999 / 1000) \<le> y" "y \<le> x * (1001 / 1000)" by blast
  moreover have "0 \<le> x * (999 / 1000)" using assms(1) by simp
  ultimately show ?thesis by (intro exI [of _ y]) simp
next
  case False
  then have small: "x < 1 / 10 ^ 9" by simp
  have r: "rnd x = rnd_pos x" using assms(1) by (simp add: rnd_def)
  from rnd_pos_range [OF assms(1)] consider "rnd_pos x = PInf" | y where "rnd_pos x = Fin y" "0 \<le> y"
    by blast
  then show ?thesis
  proof cases
    case 1
    have "x = 0 \<or> 0 < x" using assms(1) by auto
    then show ?thesis
    proof
      assume "x = 0"
      then show ?thesis using 1 by (simp add: rnd_pos_def)
    next
      assume x: "0 < x"
      show ?thesis
      proof (cases "x < 2 powr (- 1022)")
        case True
        from rnd_pos_subnormal [OF x True] show ?thesis using 1 by auto
      next
        case False
        then have lo: "2 powr (- 1022) \<le> x" by simp
        have hi: "x < 2 powr 1023" using assms(2) two_powr_bounds(3) by (rule le_less_trans)
        from rnd_pos_normal [OF lo hi] show ?thesis using 1 by auto
      qed
    qed
  next
    case 2
    have "y \<le> x * (1001 / 1000) + 1 / 10 ^ 9"
    proof (cases "x = 0")
      case True
      then show ?thesis using 2(1) by (simp add: rnd_pos_def)
    next
      case False
      then have x: "0 < x" using assms(1) by simp
      show ?thesis
      proof (cases "x < 2 powr (- 1022)")
        case True
        from rnd_pos_subnormal [OF x True] 2(1) have "\<bar>y - x\<bar> \<le> 2 powr (- 1075)" by auto
        moreover have "(2::real) powr (- 1075) \<le> 2 powr (- 1022)" by (rule powr_mono) simp_all
        ultimately have "y \<le> x + 1 / 10 ^ 9" using two_powr_bounds(2) by linarith
        moreover have "x \<le> x * (1001 / 1000)" using x by simp
        ultimately show ?thesis by linarith
      next
        case False
        then have lo: "2 powr (- 1022) \<le> x" by simp
        have hi: "x < 2 powr 1023" using assms(2) two_powr_bounds(3) by (rule le_less_trans)
        from rnd_pos_normal [OF lo hi] 2(1) have a: "y \<le> x * (1 + 2 powr (- 53))" by auto
        have b: "x * (1 + 2 powr (- 53)) \<le> x * (1001 / 1000)"
        proof -
          have "(2::real) powr (- 53) \<le> 1 / 1000"
            using two_powr_bounds(1) by (rule order_trans) simp
          then show ?thesis using x by (intro mult_left_mono) simp_all
        qed
        have "y \<le> x * (1001 / 1000)" using a b by (rule order_trans)
        then show ?thesis by simp
      qed
    qed
    then show ?thesis using r 2 by auto
  qed
qed

lemma rnd_at_most:
  assumes "x \<le> M" and "0 \<le> M" and "M \<le> 10 ^ 9"
  shows "rnd x = NInf \<or> (\<exists>y. rnd x = Fin y \<and> y \<le> M * (1001 / 1000) + 1 / 10 ^ 9)"
proof (cases "x < 0")
  case True
  then have r: "rnd x = fneg (rnd_pos (- x))" by (simp add: rnd_def)
  have "0 \<le> - x" using True by simp
  from rnd_pos_range [OF this] show ?thesis
  proof
    assume "rnd_pos (- x) = PInf"
    then show ?thesis using r by simp
  next
    assume "\<exists>y. rnd_pos (- x) = Fin y \<and> 0 \<le> y"
    then obtain y where y: "rnd_pos (- x) = Fin y" "0 \<le> y" by blast
    have "- y \<le> M * (1001 / 1000) + 1 / 10 ^ 9" using y(2) assms(2) by simp
    then show ?thesis using r y(1) by simp
  qed
next
  case False
  then have x0: "0 \<le> x" by simp
  have "x \<le> 10 ^ 9" using assms(1,3) by simp
  from rnd_nonneg [OF x0 this] obtain y where
    y: "rnd x = Fin y" "y \<le> x * (1001 / 1000) + 1 / 10 ^ 9" by blast
  have "x * (1001 / 1000) \<le> M * (1001 / 1000)" using assms(1) by simp
  then show ?thesis using y by auto
qed

lemma floor_log2:
  assumes "2 powr real_of_int e \<le> x" and "x < 2 powr (real_of_int e + 1)"
  shows "\<lfloor>log 2 x\<rfloor> = e"
proof -
  have x: "0 < x" using assms(1) by (rule less_le_trans [rotated]) simp
  have "real_of_int e \<le> log 2 x" using assms(1) x by (simp add: le_log_iff)
  moreover have "log 2 x < real_of_int e + 1" using assms(2) x by (simp add: log_less_iff)
  ultimately show ?thesis by (simp add: floor_eq_iff)
qed

lemma rnd_exact:
  assumes "2 powr real_of_int e \<le> x" and "x < 2 powr (real_of_int e + 1)"
    and "- 1074 \<le> e" and "e \<le> 1023"
    and "x = real_of_int k * 2 powr (real_of_int (max e (- 1022)) - 52)"
  shows "rnd x = Fin x"
proof -
  have x: "0 < x" using assms(1) by (rule less_le_trans [rotated]) simp
  have fl: "\<lfloor>log 2 x\<rfloor> = e" using assms(1,2) by (rule floor_log2)
  define u where "u = 2 powr (real_of_int (max e (- 1022)) - 52)"
  have u: "0 < u" by (simp add: u_def)
  have q: "x / u = real_of_int k" using assms(5) u by (simp add: u_def)
  have "x < 2 powr 1024"
  proof -
    have "(2::real) powr (real_of_int e + 1) \<le> 2 powr 1024"
      using assms(4) by (intro powr_mono) simp_all
    with assms(2) show ?thesis by simp
  qed
  then have "\<not> 2 powr 1024 \<le> real_of_int k * u" using assms(5) by (simp add: u_def)
  then have "rnd_pos x = Fin (real_of_int k * u)"
    using x unfolding rnd_pos_def Let_def fl u_def [symmetric] q by simp
  then show ?thesis using x assms(5) by (simp add: rnd_def u_def)
qed

lemma rnd_60: "rnd 60 = Fin 60"
proof -
  have p: "(2::real) powr (- 47) = 1 / 2 ^ 47" by (simp add: powr_minus_divide)
  have "(60::real) = real_of_int (60 * 2 ^ 47) * 2 powr (real_of_int (max 5 (- 1022)) - 52)"
    by (simp add: p)
  then show ?thesis
    by (intro rnd_exact [where e = 5 and k = "60 * 2 ^ 47"]) simp_all
qed

lemma rnd_min_subnormal: "rnd (2 powr (- 1074)) = Fin (2 powr (- 1074))"
proof -
  have "(2::real) powr (- 1074) = real_of_int 1 * 2 powr (real_of_int (max (- 1074) (- 1022)) - 52)"
    by simp
  moreover have "(2::real) powr (- 1074) < 2 powr (real_of_int (- 1074) + 1)"
    by (rule powr_less_mono) simp_all
  ultimately show ?thesis
    by (intro rnd_exact [where e = "- 1074" and k = 1]) simp_all
qed

lemma fgt_Fin_right: "fgt v (Fin b) \<longleftrightarrow> v = PInf \<or> (\<exists>y. v = Fin y \<and> b < y)"
  by (cases v) auto

lemma fgt_Fin_left: "fgt (Fin b) v \<longleftrightarrow> v = NInf \<or> (\<exists>y. v = Fin y \<and> y < b)"
  by (cases v) auto

section \<open>Properties of the simulator in binary64 arithmetic\<close>

lemma rnd_literal:
  assumes "1 / 100 \<le> c" and "c \<le> 100"
  shows "\<exists>y. rnd c = Fin y \<and> c * (999 / 1000) \<le> y \<and> y \<le> c * (1001 / 1000)"
proof -
  have "1 / 10 ^ 9 \<le> c" using assms(1) by (rule order_trans [rotated]) simp
  moreover have "c \<le> 10 ^ 9" using assms(2) by (rule order_trans) simp
  ultimately show ?thesis by (rule rnd_rel)
qed

lemma uniform_f64_eq:
  "uniform_f64 a b g = (fadd a (fmul (fsub b a) (Fin (g 0))), \<lambda>n. g (Suc n))"
  by (simp add: uniform_f64_def random_random_def)

lemma segment_loop_f64_Cons:
  "segment_loop_f64 b hs as (seg # segs) minutes g =
     (case fdiv (fst seg)
             (segment_speed_f64 b hs as seg (fst (uniform_f64 (rnd 0.92) (rnd 1.08) g))) of
        None \<Rightarrow> None
      | Some hours \<Rightarrow>
          segment_loop_f64 b hs as segs (fadd minutes (fmul hours (Fin 60))) (\<lambda>n. g (Suc n)))"
  by (simp add: uniform_f64_eq rnd_60 Let_def cong: option.case_cong)

lemma simulate_time_minutes_f64_eq:
  assumes "handling_scale_f64 h = Some hs"
    and "segment_loop_f64 ts hs (accel_scale_f64 a) (segments_of_f64 d p) (Fin 0) g = Some (mins, g1)"
  shows "simulate_time_minutes_f64 ts a h rel d p g =
     (if fgt (Fin (g1 0)) (py_max (rnd 0.05) (py_min (rnd 0.99) rel))
      then Some ((mins, True), \<lambda>n. g1 (Suc n))
      else Some ((fmul mins (fst (uniform_f64 (rnd 0.98) (rnd 1.05) (\<lambda>n. g1 (Suc n)))), False),
                 \<lambda>n. g1 (Suc (Suc n))))"
  by (simp add: simulate_time_minutes_f64_def assms Let_def random_random_def uniform_f64_eq
      rnd_zero)

lemma segment_speed_f64_floor:
  "segment_speed_f64 b hs as seg rv = PInf \<or>
   (\<exists>y. segment_speed_f64 b hs as seg rv = Fin y \<and> 60 \<le> y)"
proof -
  obtain len sf hf where seg: "seg = (len, sf, hf)" by (cases seg)
  define x where "x = fmul (fmul (fmul (fmul (fmul b hs) as) sf) hf) rv"
  have s: "segment_speed_f64 b hs as seg rv = (if fgt x (Fin 60) then x else Fin 60)"
    by (simp add: segment_speed_f64_def seg py_max_def rnd_60 x_def)
  show ?thesis
  proof (cases "fgt x (Fin 60)")
    case True
    then show ?thesis unfolding s using fgt_Fin_right [of x 60] by auto
  next
    case False
    then show ?thesis unfolding s by simp
  qed
qed

lemma fdiv_by_speed:
  assumes "s = PInf \<or> (\<exists>y. s = Fin y \<and> 60 \<le> y)"
  shows "fdiv a s \<noteq> None"
  using assms by (cases a) auto

lemma segment_loop_f64_returns:
  "segment_loop_f64 b hs as segs minutes g \<noteq> None"
proof (induction segs arbitrary: minutes g)
  case Nil
  show ?case by simp
next
  case (Cons seg segs)
  define rv where "rv = fst (uniform_f64 (rnd 0.92) (rnd 1.08) g)"
  obtain hours where h: "fdiv (fst seg) (segment_speed_f64 b hs as seg rv) = Some hours"
    using fdiv_by_speed [OF segment_speed_f64_floor, of "fst seg" b hs as seg rv] by auto
  show ?case
    unfolding segment_loop_f64_Cons rv_def [symmetric] h option.case by (rule Cons.IH)
qed

lemma handling_scale_f64_returns: "handling_scale_f64 h \<noteq> None"
proof -
  obtain y where y: "rnd 100.0 = Fin y" "100.0 * (999 / 1000) \<le> y"
    using rnd_literal [of "100.0"] by auto
  then have y0: "y \<noteq> 0" by auto
  have "fdiv q (Fin y) \<noteq> None" for q
    using y0 by (cases q) simp_all
  then obtain r where "fdiv (rnd (real_of_int (max 50 (min 100 h) - 50))) (Fin y) = Some r"
    by blast
  then show ?thesis
    unfolding handling_scale_f64_def y(1) by simp
qed

lemma simulate_time_minutes_f64_returns:
  "simulate_time_minutes_f64 ts a h rel d p g \<noteq> None"
proof -
  obtain hs where hs: "handling_scale_f64 h = Some hs"
    using handling_scale_f64_returns [of h] by auto
  obtain mins g1 where l:
    "segment_loop_f64 ts hs (accel_scale_f64 a) (segments_of_f64 d p) (Fin 0) g = Some (mins, g1)"
    using segment_loop_f64_returns [of ts hs "accel_scale_f64 a" "segments_of_f64 d p" "Fin 0" g]
    by auto
  show ?thesis
    unfolding simulate_time_minutes_f64_eq [OF hs l] by auto
qed

lemma underflow_hours:
  assumes "s = PInf \<or> (\<exists>y. s = Fin y \<and> 60 \<le> y)"
  shows "fdiv (Fin (2 powr (- 1074))) s = Some (Fin 0)"
  using assms
proof
  assume "s = PInf"
  then show ?thesis by simp
next
  assume "\<exists>y. s = Fin y \<and> 60 \<le> y"
  then obtain y where y: "s = Fin y" "60 \<le> y" by blast
  have h: "(2::real) powr (- 1074) = 2 powr (- 1075) * 2"
  proof -
    have "(2::real) powr (- 1074) = 2 powr (- 1075 + 1)" by simp
    also have "\<dots> = 2 powr (- 1075) * 2 powr 1" by (simp only: powr_add)
    finally show ?thesis by simp
  qed
  have "2 powr (- 1074) / y \<le> 2 powr (- 1074) / 2"
    using y(2) by (intro divide_left_mono) simp_all
  then have le: "2 powr (- 1074) / y \<le> 2 powr (- 1075)" using h by simp
  have ge: "0 \<le> 2 powr (- 1074) / y" using y(2) by simp
  have "rnd (2 powr (- 1074) / y) = Fin 0"
    using rnd_pos_tiny [OF ge le] ge by (simp add: rnd_def)
  then show ?thesis using y by simp
qed

lemma underflow_minutes:
  "segment_loop_f64 ts hs as [(Fin (2 powr (- 1074)), sf, hf)] (Fin 0) g =
     Some (Fin 0, \<lambda>n. g (Suc n))"
proof -
  define rv where "rv = fst (uniform_f64 (rnd 0.92) (rnd 1.08) g)"
  have h: "fdiv (fst (Fin (2 powr (- 1074)), sf, hf))
             (segment_speed_f64 ts hs as (Fin (2 powr (- 1074)), sf, hf) rv) = Some (Fin 0)"
    unfolding fst_conv by (rule underflow_hours [OF segment_speed_f64_floor])
  show ?thesis
    unfolding segment_loop_f64_Cons rv_def [symmetric] h option.case
    by (simp add: rnd_zero)
qed

lemma accel_scale_f64_range:
  "\<exists>v. accel_scale_f64 a = Fin v \<and> 0 < v \<and> v \<le> 106 / 100"
proof -
  obtain y9 where y9: "rnd 0.9 = Fin y9" "0.9 * (999 / 1000) \<le> y9" "y9 \<le> 0.9 * (1001 / 1000)"
    using rnd_literal [of "0.9"] by auto
  obtain y105 where y105: "rnd 1.05 = Fin y105" "1.05 * (999 / 1000) \<le> y105"
      "y105 \<le> 1.05 * (1001 / 1000)"
    using rnd_literal [of "1.05"] by auto
  define w where "w = fadd (rnd 1.0) (fmul (fsub (rnd 6.0) a) (rnd 0.02))"
  have e: "accel_scale_f64 a = py_max (Fin y9) (py_min (Fin y105) w)"
    unfolding accel_scale_f64_def w_def [symmetric] y9(1) y105(1) ..
  show ?thesis
    unfolding e using y9(2,3) y105(2,3)
    by (cases w) (auto simp: py_max_def py_min_def)
qed

lemma uniform_f64_range:
  assumes "a = Fin av" and "b = Fin bv" and "1 / 2 \<le> av" and "av \<le> bv" and "bv \<le> 2"
    and "0 \<le> g 0" and "g 0 < 1"
  shows "\<exists>v. fst (uniform_f64 a b g) = Fin v \<and> av * (999 / 1000) \<le> v \<and> v \<le> bv * (101 / 100)"
proof -
  have d0: "0 \<le> bv - av" "bv - av \<le> 10 ^ 9" using assms(3,4,5) by simp_all
  from rnd_nonneg [OF d0] obtain w where
    w: "rnd (bv - av) = Fin w" "0 \<le> w" "w \<le> (bv - av) * (1001 / 1000) + 1 / 10 ^ 9"
    by blast
  have e9: "(1::real) / 10 ^ 9 = 1 / 1000000000" by simp
  have w2: "w \<le> 2" using w(3) assms(3,4,5) unfolding e9 by (simp add: field_simps)
  have p0: "0 \<le> w * g 0" using w(2) assms(6) by simp
  have p1: "w * g 0 \<le> w" using w(2) assms(6,7) by (simp add: mult_left_le)
  have p2: "w * g 0 \<le> 10 ^ 9" using p1 w2 by simp
  from rnd_nonneg [OF p0 p2] obtain z where
    z: "rnd (w * g 0) = Fin z" "0 \<le> z" "z \<le> w * g 0 * (1001 / 1000) + 1 / 10 ^ 9"
    by blast
  have z1: "z \<le> w * (1001 / 1000) + 1 / 10 ^ 9" using z(3) p1 by simp
  have s0: "1 / 10 ^ 9 \<le> av + z" using assms(3) z(2) by simp
  have s1: "av + z \<le> 10 ^ 9" using z1 w2 assms(4,5) by simp
  from rnd_rel [OF s0 s1] obtain v where
    v: "rnd (av + z) = Fin v" "(av + z) * (999 / 1000) \<le> v" "v \<le> (av + z) * (1001 / 1000)"
    by blast
  have e: "fst (uniform_f64 a b g) = Fin v"
    by (simp add: uniform_f64_eq assms(1,2) fsub_def w(1) z(1) v(1))
  have lo: "av * (999 / 1000) \<le> v" using v(2) z(2) by simp
  have hi: "v \<le> bv * (101 / 100)"
    using v(3) z1 w(3) assms(3,4,5) by (simp add: field_simps)
  from e lo hi show ?thesis by blast
qed

lemma segment_variation_range:
  assumes "unit_draws g"
  shows "\<exists>r. fst (uniform_f64 (rnd 0.92) (rnd 1.08) g) = Fin r \<and> 0 < r \<and> r \<le> 11 / 10"
proof -
  obtain a where a: "rnd 0.92 = Fin a" "0.92 * (999 / 1000) \<le> a" "a \<le> 0.92 * (1001 / 1000)"
    using rnd_literal [of "0.92"] by auto
  obtain b where b: "rnd 1.08 = Fin b" "1.08 * (999 / 1000) \<le> b" "b \<le> 1.08 * (1001 / 1000)"
    using rnd_literal [of "1.08"] by auto
  have g: "0 \<le> g 0" "g 0 < 1" using assms by (simp_all add: unit_draws_def)
  have "1 / 2 \<le> a" "a \<le> b" "b \<le> 2" using a(2,3) b(2,3) by simp_all
  from uniform_f64_range [where g = g, OF a(1) b(1) this g] obtain r where
    "fst (uniform_f64 (rnd 0.92) (rnd 1.08) g) = Fin r" "a * (999 / 1000) \<le> r" "r \<le> b * (101 / 100)"
    by blast
  then show ?thesis using a(2) b(3) by (intro exI [of _ r]) simp
qed

lemma finish_jitter_range:
  assumes "unit_draws g"
  shows "\<exists>j. fst (uniform_f64 (rnd 0.98) (rnd 1.05) g) = Fin j \<and> 9 / 10 \<le> j \<and> j \<le> 11 / 10"
proof -
  obtain a where a: "rnd 0.98 = Fin a" "0.98 * (999 / 1000) \<le> a" "a \<le> 0.98 * (1001 / 1000)"
    using rnd_literal [of "0.98"] by auto
  obtain b where b: "rnd 1.05 = Fin b" "1.05 * (999 / 1000) \<le> b" "b \<le> 1.05 * (1001 / 1000)"
    using rnd_literal [of "1.05"] by auto
  have g: "0 \<le> g 0" "g 0 < 1" using assms by (simp_all add: unit_draws_def)
  have "1 / 2 \<le> a" "a \<le> b" "b \<le> 2" using a(2,3) b(2,3) by simp_all
  from uniform_f64_range [where g = g, OF a(1) b(1) this g] obtain j where
    "fst (uniform_f64 (rnd 0.98) (rnd 1.05) g) = Fin j" "a * (999 / 1000) \<le> j" "j \<le> b * (101 / 100)"
    by blast
  then show ?thesis using a(2) b(3) by (intro exI [of _ j]) simp
qed

lemma handling_scale_f64_range:
  "\<exists>v. handling_scale_f64 h = Some (Fin v) \<and> 0 < v \<and> v \<le> 101 / 100"
proof -
  define k where "k = real_of_int (max 50 (min 100 h) - 50)"
  have k: "0 \<le> k" "k \<le> 50" by (simp_all add: k_def)
  have "k \<le> 10 ^ 9" using k(2) by simp
  from rnd_nonneg [OF k(1) this] obtain yk where
    yk: "rnd k = Fin yk" "0 \<le> yk" "yk \<le> k * (1001 / 1000) + 1 / 10 ^ 9" by blast
  have yk51: "yk \<le> 51" using yk(3) k(2) by simp
  obtain c where c: "rnd 100.0 = Fin c" "100.0 * (999 / 1000) \<le> c" "c \<le> 100.0 * (1001 / 1000)"
    using rnd_literal [of "100.0"] by auto
  have c0: "c \<noteq> 0" "0 < c" using c(2) by simp_all
  have q0: "0 \<le> yk / c" using yk(2) c0(2) by simp
  have "yk / c \<le> 51 / (999 / 10)"
    using yk(2) yk51 c(2) by (intro frac_le) simp_all
  then have q1: "yk / c \<le> 52 / 100" by simp
  then have "yk / c \<le> 10 ^ 9" by (simp, linarith)
  from rnd_nonneg [OF q0 this] obtain q where
    q: "rnd (yk / c) = Fin q" "0 \<le> q" "q \<le> yk / c * (1001 / 1000) + 1 / 10 ^ 9" by blast
  have q53: "q \<le> 53 / 100" using q(3) q1 by simp
  obtain a where a: "rnd 0.5 = Fin a" "0.5 * (999 / 1000) \<le> a" "a \<le> 0.5 * (1001 / 1000)"
    using rnd_literal [of "0.5"] by auto
  have s0: "1 / 10 ^ 9 \<le> a + q" using a(2) q(2) by simp
  have s1: "a + q \<le> 10 ^ 9" using a(3) q53 by simp
  from rnd_rel [OF s0 s1] obtain v where
    v: "rnd (a + q) = Fin v" "(a + q) * (999 / 1000) \<le> v" "v \<le> (a + q) * (1001 / 1000)"
    by blast
  have e: "handling_scale_f64 h = Some (Fin v)"
    unfolding handling_scale_f64_def k_def [symmetric] yk(1) c(1) a(1)
    using c0(1) by (simp add: q(1) v(1))
  have "0 < v" using v(2) a(2) q(2) by simp
  moreover have "v \<le> 101 / 100"
  proof -
    have "yk / c \<le> 50.1 / 99.9"
    proof -
      have "yk \<le> 50.1" using yk(3) k(2) by simp
      then show ?thesis using yk(2) c(2) by (intro frac_le) simp_all
    qed
    then have "q \<le> 503 / 1000" using q(3) by simp
    then show ?thesis using v(3) a(3) by simp
  qed
  ultimately show ?thesis using e by blast
qed

lemma fmul_at_most:
  assumes "\<not> fgt v (Fin B)" and "0 \<le> B" and "0 < f" and "f \<le> F" and "B * F \<le> 10 ^ 9"
    and "B * F * (1001 / 1000) + 1 / 10 ^ 9 \<le> B'"
  shows "\<not> fgt (fmul v (Fin f)) (Fin B')"
proof (cases v)
  case (Fin y)
  then have y: "y \<le> B" using assms(1) by simp
  have yf: "y * f \<le> B * F"
  proof (cases "0 \<le> y")
    case True
    then show ?thesis using y assms(3,4) by (intro mult_mono) simp_all
  next
    case False
    then have "y * f \<le> 0" using assms(3) by (simp add: mult_le_0_iff)
    moreover have "0 \<le> B * F" using assms(2,3,4) by simp
    ultimately show ?thesis by simp
  qed
  have bf: "0 \<le> B * F" using assms(2,3,4) by simp
  from rnd_at_most [OF yf bf assms(5)] show ?thesis
    using Fin assms(6) by auto
next
  case PInf
  then show ?thesis using assms(1) by simp
next
  case NInf
  then show ?thesis using assms(3) by simp
next
  case NaN
  then show ?thesis by simp
qed

lemma literal_factor:
  assumes "1 / 2 \<le> c" and "c \<le> 105 / 100"
  shows "\<exists>v. rnd c = Fin v \<and> 0 < v \<and> v \<le> 106 / 100"
proof -
  have "1 / 100 \<le> c" "c \<le> 100" using assms by simp_all
  from rnd_literal [OF this] obtain v where
    v: "rnd c = Fin v" "c * (999 / 1000) \<le> v" "v \<le> c * (1001 / 1000)" by blast
  have "0 < v" using v(2) assms(1) by (simp add: field_simps)
  moreover have "v \<le> 106 / 100" using v(3) assms(2) by (simp add: field_simps)
  ultimately show ?thesis using v(1) by blast
qed

lemma literal_share:
  assumes "3 / 10 \<le> c" and "c \<le> 6 / 10"
  shows "\<exists>v. rnd c = Fin v \<and> 1 / 4 \<le> v \<and> v \<le> 1"
proof -
  have "1 / 100 \<le> c" "c \<le> 100" using assms by simp_all
  from rnd_literal [OF this] obtain v where
    v: "rnd c = Fin v" "c * (999 / 1000) \<le> v" "v \<le> c * (1001 / 1000)" by blast
  have "1 / 4 \<le> v" using v(2) assms(1) by (simp add: field_simps)
  moreover have "v \<le> 1" using v(3) assms(2) by (simp add: field_simps)
  ultimately show ?thesis using v(1) by blast
qed

lemma fmul_length:
  assumes "10 \<le> d" and "d \<le> 1000" and "1 / 4 \<le> cv" and "cv \<le> 1"
  shows "\<exists>l. fmul (Fin d) (Fin cv) = Fin l \<and> 2 \<le> l \<and> l \<le> 1001"
proof -
  have "10 * (1 / 4) \<le> d * cv" using assms(1,3) by (intro mult_mono) simp_all
  then have lo: "5 / 2 \<le> d * cv" by simp
  have "d * cv \<le> 1000 * 1" using assms(1,2,3,4) by (intro mult_mono) simp_all
  then have hi: "d * cv \<le> 1000" by simp
  have "1 / 10 ^ 9 \<le> d * cv" using lo by (rule order_trans [rotated]) simp
  moreover have "d * cv \<le> 10 ^ 9" using hi by (rule order_trans) simp
  ultimately obtain l where
    l: "rnd (d * cv) = Fin l" "d * cv * (999 / 1000) \<le> l" "l \<le> d * cv * (1001 / 1000)"
    using rnd_rel by blast
  have "2 \<le> l" using l(2) lo by (simp add: field_simps)
  moreover have "l \<le> 1001" using l(3) hi by (simp add: field_simps)
  ultimately show ?thesis using l(1) by simp
qed

lemma segments_of_f64_bounded:
  assumes "10 \<le> d" and "d \<le> 1000"
  shows "\<forall>seg \<in> set (segments_of_f64 (Fin d) p). bounded_segment seg"
proof -
  obtain f105 where f105: "rnd 1.05 = Fin f105" "0 < f105" "f105 \<le> 106 / 100"
    using literal_factor [of "1.05"] by auto
  obtain f10 where f10: "rnd 1.0 = Fin f10" "0 < f10" "f10 \<le> 106 / 100"
    using literal_factor [of "1.0"] by auto
  obtain f08 where f08: "rnd 0.8 = Fin f08" "0 < f08" "f08 \<le> 106 / 100"
    using literal_factor [of "0.8"] by auto
  obtain f09 where f09: "rnd 0.9 = Fin f09" "0 < f09" "f09 \<le> 106 / 100"
    using literal_factor [of "0.9"] by auto
  obtain f07 where f07: "rnd 0.7 = Fin f07" "0 < f07" "f07 \<le> 106 / 100"
    using literal_factor [of "0.7"] by auto
  obtain f085 where f085: "rnd 0.85 = Fin f085" "0 < f085" "f085 \<le> 106 / 100"
    using literal_factor [of "0.85"] by auto
  obtain f095 where f095: "rnd 0.95 = Fin f095" "0 < f095" "f095 \<le> 106 / 100"
    using literal_factor [of "0.95"] by auto
  obtain f098 where f098: "rnd 0.98 = Fin f098" "0 < f098" "f098 \<le> 106 / 100"
    using literal_factor [of "0.98"] by auto
  obtain f092 where f092: "rnd 0.92 = Fin f092" "0 < f092" "f092 \<le> 106 / 100"
    using literal_factor [of "0.92"] by auto
  obtain f075 where f075: "rnd 0.75 = Fin f075" "0 < f075" "f075 \<le> 106 / 100"
    using literal_factor [of "0.75"] by auto
  obtain s06 where s06: "rnd 0.6 = Fin s06" "1 / 4 \<le> s06" "s06 \<le> 1"
    using literal_share [of "0.6"] by auto
  obtain s04 where s04: "rnd 0.4 = Fin s04" "1 / 4 \<le> s04" "s04 \<le> 1"
    using literal_share [of "0.4"] by auto
  obtain s03 where s03: "rnd 0.3 = Fin s03" "1 / 4 \<le> s03" "s03 \<le> 1"
    using literal_share [of "0.3"] by auto
  obtain l06 where l06: "fmul (Fin d) (Fin s06) = Fin l06" "2 \<le> l06" "l06 \<le> 1001"
    using fmul_length [OF assms s06(2,3)] by blast
  obtain l04 where l04: "fmul (Fin d) (Fin s04) = Fin l04" "2 \<le> l04" "l04 \<le> 1001"
    using fmul_length [OF assms s04(2,3)] by blast
  obtain l03 where l03: "fmul (Fin d) (Fin s03) = Fin l03" "2 \<le> l03" "l03 \<le> 1001"
    using fmul_length [OF assms s03(2,3)] by blast
  have e: "segments_of_f64 (Fin d) p =
     (if p = ''Fast asphalt'' then [(Fin d, Fin f105, Fin f10)]
      else if p = ''Gravel twisty''
        then [(Fin l06, Fin f08, Fin f09), (Fin l04, Fin f07, Fin f085)]
      else [(Fin l04, Fin f095, Fin f098), (Fin l03, Fin f085, Fin f092),
            (Fin l03, Fin f075, Fin f09)])"
    unfolding segments_of_f64_def f105(1) f10(1) f08(1) f09(1) f07(1) f085(1) f095(1) f098(1)
      f092(1) f075(1) s06(1) s04(1) s03(1) l06(1) l04(1) l03(1) ..
  have d: "2 \<le> d" "d \<le> 1001" using assms by simp_all
  show ?thesis
    unfolding e bounded_segment_def
    using d f105(2,3) f10(2,3) f08(2,3) f09(2,3) f07(2,3) f085(2,3) f095(2,3) f098(2,3)
      f092(2,3) f075(2,3) l06(2,3) l04(2,3) l03(2,3)
    by simp
qed

lemma segment_speed_f64_range:
  assumes "\<not> fgt ts (Fin 400)" and "0 < hv" and "hv \<le> 101 / 100"
    and "0 < av" and "av \<le> 106 / 100" and "0 < s" and "s \<le> 106 / 100"
    and "0 < h" and "h \<le> 106 / 100" and "0 < r" and "r \<le> 11 / 10"
  shows "\<exists>y. segment_speed_f64 ts (Fin hv) (Fin av) (len, Fin s, Fin h) (Fin r) = Fin y \<and>
             60 \<le> y \<and> y \<le> 535"
proof -
  have 1: "\<not> fgt (fmul ts (Fin hv)) (Fin 405)"
    using assms(1) _ assms(2,3) by (rule fmul_at_most) simp_all
  have 2: "\<not> fgt (fmul (fmul ts (Fin hv)) (Fin av)) (Fin 430)"
    using 1 _ assms(4,5) by (rule fmul_at_most) simp_all
  have 3: "\<not> fgt (fmul (fmul (fmul ts (Fin hv)) (Fin av)) (Fin s)) (Fin 457)"
    using 2 _ assms(6,7) by (rule fmul_at_most) simp_all
  have 4: "\<not> fgt (fmul (fmul (fmul (fmul ts (Fin hv)) (Fin av)) (Fin s)) (Fin h)) (Fin 485)"
    using 3 _ assms(8,9) by (rule fmul_at_most) simp_all
  define x where "x = fmul (fmul (fmul (fmul (fmul ts (Fin hv)) (Fin av)) (Fin s)) (Fin h)) (Fin r)"
  have 5: "\<not> fgt x (Fin 535)"
    unfolding x_def using 4 _ assms(10,11) by (rule fmul_at_most) simp_all
  have e: "segment_speed_f64 ts (Fin hv) (Fin av) (len, Fin s, Fin h) (Fin r) =
      (if fgt x (Fin 60) then x else Fin 60)"
    by (simp add: segment_speed_f64_def py_max_def rnd_60 x_def)
  show ?thesis
  proof (cases "fgt x (Fin 60)")
    case True
    then obtain y where y: "x = Fin y" "60 < y"
      using 5 fgt_Fin_right [of x 60] fgt_Fin_right [of x 535] by auto
    then have "y \<le> 535" using 5 by simp
    then show ?thesis unfolding e using True y by simp
  next
    case False
    then show ?thesis unfolding e by simp
  qed
qed

lemma segment_minutes_range:
  assumes "2 \<le> l" and "l \<le> 1001" and "60 \<le> y" and "y \<le> 535"
    and "0 \<le> m" and "m \<le> 10 ^ 6"
  shows "\<exists>hours m'. fdiv (Fin l) (Fin y) = Some hours \<and>
           fadd (Fin m) (fmul hours (Fin 60)) = Fin m' \<and> 19 / 100 \<le> m' \<and> m' \<le> m + 3000"
proof -
  have y0: "0 < y" "y \<noteq> 0" using assms(3) by simp_all
  have "2 / 535 \<le> l / y" using assms(1,4) y0(1) by (intro frac_le) simp_all
  then have q0: "1 / 300 \<le> l / y" by simp
  have "l / y \<le> 1001 / 60" using assms(1,2,3) by (intro frac_le) simp_all
  then have q1: "l / y \<le> 17" by linarith
  have "1 / 10 ^ 9 \<le> l / y" using q0 by (rule order_trans [rotated]) simp
  moreover have "l / y \<le> 10 ^ 9" using q1 by (rule order_trans) simp
  ultimately obtain hv where
    hv: "rnd (l / y) = Fin hv" "l / y * (999 / 1000) \<le> hv" "hv \<le> l / y * (1001 / 1000)"
    using rnd_rel by blast
  have h0: "33 / 10000 \<le> hv" using hv(2) q0 by (simp add: field_simps)
  have h1: "hv \<le> 18" using hv(3) q1 by (simp add: field_simps)
  have p0: "198 / 1000 \<le> hv * 60" using h0 by simp
  have p1: "hv * 60 \<le> 1080" using h1 by simp
  have "1 / 10 ^ 9 \<le> hv * 60" using p0 by (rule order_trans [rotated]) simp
  moreover have "hv * 60 \<le> 10 ^ 9" using p1 by (rule order_trans) simp
  ultimately obtain z where
    z: "rnd (hv * 60) = Fin z" "hv * 60 * (999 / 1000) \<le> z" "z \<le> hv * 60 * (1001 / 1000)"
    using rnd_rel by blast
  have z0: "197 / 1000 \<le> z" using z(2) p0 by (simp add: field_simps)
  have z1: "z \<le> 1100" using z(3) p1 by (simp add: field_simps)
  have s0: "197 / 1000 \<le> m + z" using z0 assms(5) by simp
  have s1: "m + z \<le> 1001100" using z1 assms(6) by simp
  have "1 / 10 ^ 9 \<le> m + z" using s0 by (rule order_trans [rotated]) simp
  moreover have "m + z \<le> 10 ^ 9" using s1 by (rule order_trans) simp
  ultimately obtain m' where
    m': "rnd (m + z) = Fin m'" "(m + z) * (999 / 1000) \<le> m'" "m' \<le> (m + z) * (1001 / 1000)"
    using rnd_rel by blast
  have "19 / 100 \<le> m'" using m'(2) s0 by (simp add: field_simps)
  moreover have "m' \<le> m + 3000" using m'(3) z1 assms(6) by (simp add: field_simps)
  moreover have "fdiv (Fin l) (Fin y) = Some (Fin hv)" using y0(2) hv(1) by simp
  moreover have "fadd (Fin m) (fmul (Fin hv) (Fin 60)) = Fin m'" using z(1) m'(1) by simp
  ultimately show ?thesis by blast
qed

lemma unit_draws_Suc: "unit_draws g \<Longrightarrow> unit_draws (\<lambda>n. g (Suc n))"
  by (simp add: unit_draws_def)

lemma segment_loop_f64_range:
  assumes "\<not> fgt ts (Fin 400)" and "0 < hv" and "hv \<le> 101 / 100"
    and "0 < av" and "av \<le> 106 / 100"
    and "\<forall>seg \<in> set segs. bounded_segment seg"
    and "unit_draws g" and "0 \<le> m" and "m + 3000 * real (length segs) \<le> 10 ^ 6"
    and "segs \<noteq> [] \<or> 19 / 100 \<le> m"
  shows "\<exists>m' g'. segment_loop_f64 ts (Fin hv) (Fin av) segs (Fin m) g = Some (Fin m', g') \<and>
           19 / 100 \<le> m' \<and> m' \<le> 10 ^ 6 \<and> unit_draws g'"
  using assms(6-10)
proof (induction segs arbitrary: m g)
  case Nil
  then show ?case by simp
next
  case (Cons seg segs)
  from Cons.prems(1) obtain l s h where
    seg: "seg = (Fin l, Fin s, Fin h)" and l: "2 \<le> l" "l \<le> 1001"
    and s: "0 < s" "s \<le> 106 / 100" and h: "0 < h" "h \<le> 106 / 100"
    by (auto simp: bounded_segment_def)
  obtain r where r: "fst (uniform_f64 (rnd 0.92) (rnd 1.08) g) = Fin r" "0 < r" "r \<le> 11 / 10"
    using segment_variation_range [OF Cons.prems(2)] by blast
  obtain y where y: "segment_speed_f64 ts (Fin hv) (Fin av) (Fin l, Fin s, Fin h) (Fin r) = Fin y"
      "60 \<le> y" "y \<le> 535"
    using segment_speed_f64_range [OF assms(1-5) s h r(2,3)] by blast
  have m6: "m \<le> 10 ^ 6" using Cons.prems(3,4) by simp
  obtain hours m1 where st: "fdiv (Fin l) (Fin y) = Some hours"
      "fadd (Fin m) (fmul hours (Fin 60)) = Fin m1" "19 / 100 \<le> m1" "m1 \<le> m + 3000"
    using segment_minutes_range [OF l y(2,3) Cons.prems(3) m6] by blast
  have e: "segment_loop_f64 ts (Fin hv) (Fin av) (seg # segs) (Fin m) g =
      segment_loop_f64 ts (Fin hv) (Fin av) segs (Fin m1) (\<lambda>n. g (Suc n))"
    unfolding segment_loop_f64_Cons r(1) unfolding seg fst_conv y(1) st(1) option.case st(2) ..
  have a1: "\<forall>seg \<in> set segs. bounded_segment seg" using Cons.prems(1) by simp
  have a2: "unit_draws (\<lambda>n. g (Suc n))" using Cons.prems(2) by (rule unit_draws_Suc)
  have a3: "0 \<le> m1" using st(3) by simp
  have a4: "m1 + 3000 * real (length segs) \<le> 10 ^ 6"
    using st(4) Cons.prems(4) by simp
  have a5: "segs \<noteq> [] \<or> 19 / 100 \<le> m1" using st(3) by simp
  show ?case unfolding e using a1 a2 a3 a4 a5 by (rule Cons.IH)
qed

lemma segments_of_f64_length: "length (segments_of_f64 d p) \<le> 3 \<and> segments_of_f64 d p \<noteq> []"
  by (simp add: segments_of_f64_def)

lemma simulate_time_minutes_f64_range:
  assumes "10 \<le> d" and "d \<le> 1000" and "\<not> fgt ts (Fin 400)" and "unit_draws g"
  shows "\<exists>t dnf g'. simulate_time_minutes_f64 ts a h rel (Fin d) p g = Some ((Fin t, dnf), g') \<and>
           1 / 10 \<le> t \<and> t \<le> 2 * 10 ^ 6"
proof -
  obtain hv where hv: "handling_scale_f64 h = Some (Fin hv)" "0 < hv" "hv \<le> 101 / 100"
    using handling_scale_f64_range [of h] by blast
  obtain av where av: "accel_scale_f64 a = Fin av" "0 < av" "av \<le> 106 / 100"
    using accel_scale_f64_range [of a] by blast
  have b: "\<forall>seg \<in> set (segments_of_f64 (Fin d) p). bounded_segment seg"
    using assms(1,2) by (rule segments_of_f64_bounded)
  have n: "(0::real) + 3000 * real (length (segments_of_f64 (Fin d) p)) \<le> 10 ^ 6"
    using segments_of_f64_length [of "Fin d" p] by simp
  have ne: "segments_of_f64 (Fin d) p \<noteq> [] \<or> 19 / 100 \<le> (0::real)"
    using segments_of_f64_length [of "Fin d" p] by simp
  obtain m g1 where
    l: "segment_loop_f64 ts (Fin hv) (Fin av) (segments_of_f64 (Fin d) p) (Fin 0) g =
          Some (Fin m, g1)"
    and m: "19 / 100 \<le> m" "m \<le> 10 ^ 6" and g1: "unit_draws g1"
    using segment_loop_f64_range [OF assms(3) hv(2,3) av(2,3) b assms(4) order_refl n ne]
    by blast
  have l': "segment_loop_f64 ts (Fin hv) (accel_scale_f64 a) (segments_of_f64 (Fin d) p) (Fin 0) g =
          Some (Fin m, g1)"
    unfolding av(1) by (rule l)
  obtain j where j: "fst (uniform_f64 (rnd 0.98) (rnd 1.05) (\<lambda>n. g1 (Suc n))) = Fin j"
      "9 / 10 \<le> j" "j \<le> 11 / 10"
    using finish_jitter_range [OF unit_draws_Suc [OF g1]] by blast
  have "(19 / 100) * (9 / 10) \<le> m * j" using m(1) j(2) by (intro mult_mono) simp_all
  then have p0: "17 / 100 \<le> m * j" by simp
  have "m * j \<le> 10 ^ 6 * (11 / 10)" using m j(2,3) by (intro mult_mono) simp_all
  then have p1: "m * j \<le> 1100000" by simp
  have "1 / 10 ^ 9 \<le> m * j" using p0 by (rule order_trans [rotated]) simp
  moreover have "m * j \<le> 10 ^ 9" using p1 by (rule order_trans) simp
  ultimately obtain t where
    t: "rnd (m * j) = Fin t" "m * j * (999 / 1000) \<le> t" "t \<le> m * j * (1001 / 1000)"
    using rnd_rel by blast
  have t0: "1 / 10 \<le> t" using t(2) p0 by (simp add: field_simps)
  have t1: "t \<le> 2 * 10 ^ 6" using t(3) p1 by (simp add: field_simps)
  have m0: "1 / 10 \<le> m" using m(1) by simp
  have m1: "m \<le> 2 * 10 ^ 6" using m(2) by simp
  show ?thesis
    unfolding simulate_time_minutes_f64_eq [OF hv(1) l'] j(1)
    using t(1) t0 t1 m0 m1 by auto
qed

lemma segment_loop_f64_draws:
  assumes "segment_loop_f64 b hs as segs minutes g = Some (m', g')"
  shows "g' = (\<lambda>n. g (length segs + n))"
  using assms
proof (induction segs arbitrary: minutes g)
  case Nil
  then show ?case by simp
next
  case (Cons seg segs)
  define rv where "rv = fst (uniform_f64 (rnd 0.92) (rnd 1.08) g)"
  obtain hours where h: "fdiv (fst seg) (segment_speed_f64 b hs as seg rv) = Some hours"
    using fdiv_by_speed [OF segment_speed_f64_floor, of "fst seg" b hs as seg rv] by auto
  have "segment_loop_f64 b hs as segs (fadd minutes (fmul hours (Fin 60))) (\<lambda>n. g (Suc n)) =
      Some (m', g')"
    using Cons.prems unfolding segment_loop_f64_Cons rv_def [symmetric] h option.case .
  from Cons.IH [OF this] show ?case by simp
qed

lemma simulate_time_minutes_f64_dnf:
  assumes "simulate_time_minutes_f64 ts a h rel d p g = Some ((t, dnf), g')"
  shows "dnf = fgt (Fin (g (length (segments_of_f64 d p))))
                 (py_max (rnd 0.05) (py_min (rnd 0.99) rel))"
proof -
  obtain hs where hs: "handling_scale_f64 h = Some hs"
    using handling_scale_f64_returns [of h] by auto
  obtain mins g1 where l:
    "segment_loop_f64 ts hs (accel_scale_f64 a) (segments_of_f64 d p) (Fin 0) g = Some (mins, g1)"
    using segment_loop_f64_returns [of ts hs "accel_scale_f64 a" "segments_of_f64 d p" "Fin 0" g]
    by auto
  have g1: "g1 0 = g (length (segments_of_f64 d p))"
    using segment_loop_f64_draws [OF l] by simp
  show ?thesis
    using assms unfolding simulate_time_minutes_f64_eq [OF hs l] g1
    by (auto split: if_splits)
qed

lemma finish_probability_half:
  "py_max (rnd 0.05) (py_min (rnd 0.99) (Fin (1 / 2))) = Fin (1 / 2)"
proof -
  obtain y1 where y1: "rnd 0.99 = Fin y1" "0.99 * (999 / 1000) \<le> y1"
    using rnd_literal [of "0.99"] by auto
  obtain y2 where y2: "rnd 0.05 = Fin y2" "y2 \<le> 0.05 * (1001 / 1000)"
    using rnd_literal [of "0.05"] by auto
  show ?thesis
    unfolding y1(1) y2(1) using y1(2) y2(2) by (simp add: py_max_def py_min_def)
qed

text \<open>
  C10, as stated, fails in binary64 arithmetic. The distance \<open>2 powr - 1074\<close> (the
  smallest positive float, about 5e-324) is positive, and for it the simulator returns
  the time 0.0 with the DNF flag set: the segment speed is at least 60, so the hours of
  the segment underflow to zero.
\<close>

theorem simulate_time_underflow_counterexample:
  "(0::real) < 2 powr (- 1074) \<and>
   rnd (2 powr (- 1074)) = Fin (2 powr (- 1074)) \<and>
   map_option fst
     (simulate_time_minutes_f64 (Fin 220) (Fin (11 / 2)) 85 (Fin (1 / 2))
        (Fin (2 powr (- 1074))) ''Fast asphalt'' draws_075) = Some (Fin 0, True)"
proof -
  obtain hs where hs: "handling_scale_f64 85 = Some hs"
    using handling_scale_f64_returns [of 85] by auto
  have seg: "segments_of_f64 (Fin (2 powr (- 1074))) ''Fast asphalt'' =
      [(Fin (2 powr (- 1074)), rnd 1.05, rnd 1.0)]"
    unfolding segments_of_f64_def by simp
  have l: "segment_loop_f64 (Fin 220) hs (accel_scale_f64 (Fin (11 / 2)))
             (segments_of_f64 (Fin (2 powr (- 1074))) ''Fast asphalt'') (Fin 0) draws_075 =
           Some (Fin 0, \<lambda>n. draws_075 (Suc n))"
    unfolding seg by (rule underflow_minutes)
  obtain y1 where y1: "rnd 0.99 = Fin y1" "0.99 * (999 / 1000) \<le> y1"
    using rnd_literal [of "0.99"] by auto
  obtain y2 where y2: "rnd 0.05 = Fin y2" "y2 \<le> 0.05 * (1001 / 1000)"
    using rnd_literal [of "0.05"] by auto
  have fp: "py_max (rnd 0.05) (py_min (rnd 0.99) (Fin (1 / 2))) = Fin (1 / 2)"
    unfolding y1(1) y2(1) using y1(2) y2(2) by (simp add: py_max_def py_min_def)
  have "simulate_time_minutes_f64 (Fin 220) (Fin (11 / 2)) 85 (Fin (1 / 2))
          (Fin (2 powr (- 1074))) ''Fast asphalt'' draws_075 =
        Some ((Fin 0, True), \<lambda>n. draws_075 (Suc (Suc n)))"
    unfolding simulate_time_minutes_f64_eq [OF hs l] fp
    by (simp add: draws_075_def)
  then show ?thesis
    using rnd_min_subnormal by simp
qed

text \<open>
  C10, with the bounds it needs. For every input, each segment's effective speed is at
  least 60.0 km/h (a finite float of at least 60, or infinity), so no per-segment
  division is by zero and \<^verbatim>\<open>simulate_time_minutes\<close> always returns. For the inputs the
  entry forms admit, a distance from 10 to 1000 km and a top speed not above 400 km/h
  (zero, negative and NaN included), whatever the acceleration, the handling and the
  reliability, the returned time is a finite float and strictly positive, whether the
  DNF flag is true or false. The draws of \<^verbatim>\<open>random.random()\<close> lie in [0, 1).
\<close>

theorem simulate_time_f64_positive:
  "(segment_speed_f64 b hs as seg rv = PInf \<or>
      (\<exists>y. segment_speed_f64 b hs as seg rv = Fin y \<and> 60 \<le> y)) \<and>
   fdiv (fst seg) (segment_speed_f64 b hs as seg rv) \<noteq> None \<and>
   simulate_time_minutes_f64 ts a h rel distance_km p g \<noteq> None \<and>
   (10 \<le> d \<and> d \<le> 1000 \<and> \<not> fgt ts (Fin 400) \<and> unit_draws g \<longrightarrow>
      (\<exists>t dnf g'. simulate_time_minutes_f64 ts a h rel (Fin d) p g = Some ((Fin t, dnf), g') \<and>
                   0 < t))"
proof -
  have 1: "segment_speed_f64 b hs as seg rv = PInf \<or>
      (\<exists>y. segment_speed_f64 b hs as seg rv = Fin y \<and> 60 \<le> y)"
    by (rule segment_speed_f64_floor)
  have 2: "fdiv (fst seg) (segment_speed_f64 b hs as seg rv) \<noteq> None"
    using 1 by (rule fdiv_by_speed)
  have 3: "simulate_time_minutes_f64 ts a h rel distance_km p g \<noteq> None"
    by (rule simulate_time_minutes_f64_returns)
  have 4: "\<exists>t dnf g'. simulate_time_minutes_f64 ts a h rel (Fin d) p g = Some ((Fin t, dnf), g') \<and>
                   0 < t"
    if b: "10 \<le> d" "d \<le> 1000" "\<not> fgt ts (Fin 400)" "unit_draws g"
  proof -
    from simulate_time_minutes_f64_range [OF b, of a h rel p] obtain t dnf g' where
      r: "simulate_time_minutes_f64 ts a h rel (Fin d) p g = Some ((Fin t, dnf), g')"
        "1 / 10 \<le> t"
      by blast
    have "0 < t" using r(2) by simp
    with r(1) show ?thesis by blast
  qed
  from 1 2 3 4 show ?thesis by blast
qed

text \<open>
  A car of the entry form on 100 km of fast asphalt, with every draw 0.75 and the
  reliability 0.5: the car does not finish, and its time is positive.
\<close>

theorem simulate_time_f64_positive_witness:
  "(10::real) \<le> 100 \<and> (100::real) \<le> 1000 \<and> \<not> fgt (Fin 220) (Fin 400) \<and> unit_draws draws_075 \<and>
   (\<exists>t g'. simulate_time_minutes_f64 (Fin 220) (Fin (11 / 2)) 85 (Fin (1 / 2)) (Fin 100)
              ''Fast asphalt'' draws_075 = Some ((Fin t, True), g') \<and> 0 < t)"
proof -
  have h: "(10::real) \<le> 100" "(100::real) \<le> 1000" "\<not> fgt (Fin 220) (Fin 400)"
      "unit_draws draws_075"
    by (simp_all add: unit_draws_def draws_075_def)
  from simulate_time_f64_positive [where ts = "Fin 220" and d = 100 and g = draws_075
      and a = "Fin (11 / 2)" and h = 85 and rel = "Fin (1 / 2)" and p = "''Fast asphalt''"] h
  obtain t dnf g' where
    r: "simulate_time_minutes_f64 (Fin 220) (Fin (11 / 2)) 85 (Fin (1 / 2)) (Fin 100)
          ''Fast asphalt'' draws_075 = Some ((Fin t, dnf), g')" "0 < t"
    by blast
  have "dnf = True"
    unfolding simulate_time_minutes_f64_dnf [OF r(1)] finish_probability_half
    by (simp add: draws_075_def)
  with r h show ?thesis by blast
qed

end
